theory Spec2Isabelle
  imports Main "HOL-Library.AList"
begin

section \<open>Operation-graph construction of PhasedOperationPlugin\<close>

text \<open>
  A shallow embedding of \<^verbatim>\<open>libraries/rush-lib/src/logic/operations/PhasedOperationPlugin.ts\<close>.
  JavaScript objects are addressed by reference, so phases, projects and Operations are
  identified by natural numbers. The fields of a phase or a project that the plugin reads are
  tables of the environment; the Operations live in a heap (a list, the reference of an
  Operation being its index), because the plugin mutates them while it shares them between the
  memo, the work-tracking set and the operation set.
\<close>

subsection \<open>Data model\<close>

type_synonym phase_ref = nat
type_synonym project_ref = nat
type_synonym op_ref = nat

datatype OperationStatus = Success | Skipped

text \<open>
  The three shapes of runner that the plugin can see: the \<^verbatim>\<open>NullOperationRunner\<close> built from
  \<^verbatim>\<open>{name, result, silent}\<close>, the object literal of the cache boundary operations (lines
  96-108 and 114-119: \<^verbatim>\<open>cacheable\<close>, \<^verbatim>\<open>reportTiming\<close>, \<^verbatim>\<open>warningsAreAllowed\<close>, \<^verbatim>\<open>silent\<close>, \<^verbatim>\<open>name\<close>,
  the value of \<^verbatim>\<open>getConfigHash\<close> and the value of \<^verbatim>\<open>executeAsync\<close>), and a runner attached
  by somebody else to an Operation that existed before the pass.
\<close>

datatype IOperationRunner =
    NullOperationRunner string OperationStatus bool
  | BoundaryRunner bool bool bool bool string string OperationStatus
  | ExternalRunner nat

text \<open>
  Modelled from the spec: the class \<^verbatim>\<open>Operation\<close> (file \<^verbatim>\<open>./Operation\<close>) is not part of the
  sources at hand. An Operation is built from a project, a phase and an optional shard
  descriptor; it holds a dependency set, the derived consumer set and a mutable slot for its
  execution strategy, which is unset until somebody attaches one. Sets are JavaScript
  \<^verbatim>\<open>Set\<close>s: lists without repetition in insertion order.
\<close>

record Operation =
  project :: project_ref
  phase :: phase_ref
  shard :: "(int \<times> int) option"
  dependencies :: "op_ref list"
  consumers :: "op_ref list"
  runner :: "IOperationRunner option"

text \<open>
  \<^verbatim>\<open>RushProjectConfiguration\<close> is external too: the plugin reads the optional \<^verbatim>\<open>shards\<close>
  of the settings stored under an operation name.
\<close>

record IOperationSettings =
  shards :: "int option"

record RushProjectConfiguration =
  operationSettingsByOperationName :: "string \<Rightarrow> IOperationSettings option"

text \<open>
  The environment: what the plugin reads of phases (\<^verbatim>\<open>name\<close>, \<^verbatim>\<open>dependencies.self\<close>,
  \<^verbatim>\<open>dependencies.upstream\<close>) and of projects (\<^verbatim>\<open>packageName\<close>, \<^verbatim>\<open>dependencyProjects\<close>), the
  loader of project configurations, and the fields of \<^verbatim>\<open>ICreateOperationsContext\<close> that
  \<^verbatim>\<open>createOperations\<close> destructures. Sets are given by their elements in iteration order.
\<close>

record env =
  phase_name :: "phase_ref \<Rightarrow> string"
  phase_self :: "phase_ref \<Rightarrow> phase_ref list"
  phase_upstream :: "phase_ref \<Rightarrow> phase_ref list"
  packageName :: "project_ref \<Rightarrow> string"
  dependencyProjects :: "project_ref \<Rightarrow> project_ref list"
  tryLoadForProjectAsync :: "project_ref \<Rightarrow> RushProjectConfiguration option"
  projectsInUnknownState :: "project_ref list"
  phaseOriginal :: "phase_ref list"
  phaseSelection :: "phase_ref list"
  projectSelection :: "project_ref list"

text \<open>
  The mutable state of one call of \<^verbatim>\<open>createOperations\<close>: the heap of Operations, the memo
  \<^verbatim>\<open>allOperations\<close> (a \<^verbatim>\<open>Map\<close> from key to array of Operations, in insertion order), the set
  \<^verbatim>\<open>operationsWithWork\<close> and the set \<^verbatim>\<open>existingOperations\<close> that the caller passes in and gets
  back.
\<close>

record state =
  heap :: "Operation list"
  allOperations :: "(string \<times> op_ref list) list"
  operationsWithWork :: "op_ref list"
  existingOperations :: "op_ref list"

subsection \<open>Sets, Operations and loops\<close>

definition set_add :: "'a \<Rightarrow> 'a list \<Rightarrow> 'a list" where
  \<comment> \<open>\<^verbatim>\<open>Set.prototype.add\<close>: a new element goes to the end, a present one changes nothing\<close>
  "set_add x xs = (if x \<in> set xs then xs else xs @ [x])"

definition new_Operation ::
  "project_ref \<Rightarrow> phase_ref \<Rightarrow> (int \<times> int) option \<Rightarrow> state \<Rightarrow> op_ref \<times> state" where
  \<comment> \<open>Modelled from the spec: \<^verbatim>\<open>new Operation({project, phase, shard})\<close>, no edges, no runner\<close>
  "new_Operation pr ph sh st =
     (length (heap st),
      st\<lparr>heap := heap st @
        [\<lparr>project = pr, phase = ph, shard = sh, dependencies = [], consumers = [],
          runner = None\<rparr>]\<rparr>)"

definition set_runner :: "op_ref \<Rightarrow> IOperationRunner \<Rightarrow> state \<Rightarrow> state" where
  \<comment> \<open>\<^verbatim>\<open>operation.runner = r\<close>\<close>
  "set_runner i r st = st\<lparr>heap := (heap st)[i := (heap st ! i)\<lparr>runner := Some r\<rparr>]\<rparr>"

definition addDependency :: "op_ref \<Rightarrow> op_ref \<Rightarrow> state \<Rightarrow> state" where
  \<comment> \<open>Modelled from the spec: \<^verbatim>\<open>a.addDependency(b)\<close> inserts \<open>b\<close> into the dependency set of
      \<open>a\<close> and \<open>a\<close> into the consumer set of \<open>b\<close>\<close>
  "addDependency a b st =
     (let h1 = (heap st)[a := (heap st ! a)\<lparr>dependencies := set_add b (dependencies (heap st ! a))\<rparr>];
          h2 = h1[b := (h1 ! b)\<lparr>consumers := set_add a (consumers (h1 ! b))\<rparr>]
      in st\<lparr>heap := h2\<rparr>)"

definition mark_work :: "op_ref \<Rightarrow> state \<Rightarrow> state" where
  \<comment> \<open>\<^verbatim>\<open>operationsWithWork.add(operation)\<close>\<close>
  "mark_work i st = st\<lparr>operationsWithWork := set_add i (operationsWithWork st)\<rparr>"

definition add_existing :: "op_ref \<Rightarrow> state \<Rightarrow> state" where
  \<comment> \<open>\<^verbatim>\<open>existingOperations.add(operation)\<close>\<close>
  "add_existing i st = st\<lparr>existingOperations := set_add i (existingOperations st)\<rparr>"

definition memo_set :: "string \<Rightarrow> op_ref list \<Rightarrow> state \<Rightarrow> state" where
  \<comment> \<open>\<^verbatim>\<open>allOperations.set(key, operations)\<close>: a present key keeps its place\<close>
  "memo_set key ops st = st\<lparr>allOperations := AList.update key ops (allOperations st)\<rparr>"

primrec for_of :: "'a list \<Rightarrow> ('a \<Rightarrow> 's \<Rightarrow> 's option) \<Rightarrow> 's \<Rightarrow> 's option" where
  \<comment> \<open>a \<^verbatim>\<open>for (const x of xs)\<close> loop whose body may fail to return\<close>
  "for_of [] body s = Some s"
| "for_of (x # xs) body s = (case body x s of None \<Rightarrow> None | Some s' \<Rightarrow> for_of xs body s')"

subsection \<open>getOperationKey and getShards\<close>

definition getOperationKey :: "env \<Rightarrow> phase_ref \<Rightarrow> project_ref \<Rightarrow> string" where
  \<comment> \<open>line 232: \<^verbatim>\<open>`${project.packageName};${phase.name}`\<close>\<close>
  "getOperationKey e ph pr = packageName e pr @ '';'' @ phase_name e ph"

definition getShards :: "env \<Rightarrow> phase_ref \<Rightarrow> project_ref \<Rightarrow> int option" where
  \<comment> \<open>lines 224-227; a missing configuration and a missing entry both give \<^verbatim>\<open>undefined\<close>\<close>
  "getShards e ph pr =
     (case tryLoadForProjectAsync e pr of
        None \<Rightarrow> None
      | Some rushProjectConfiguration \<Rightarrow>
          (case operationSettingsByOperationName rushProjectConfiguration (phase_name e ph) of
             None \<Rightarrow> None
           | Some settings \<Rightarrow> shards settings))"

definition is_sharded :: "int option \<Rightarrow> bool" where
  \<comment> \<open>line 87: \<^verbatim>\<open>shards && shards > 1\<close>; \<^verbatim>\<open>undefined\<close> and \<open>0\<close> are falsy\<close>
  "is_sharded s = (case s of None \<Rightarrow> False | Some n \<Rightarrow> n \<noteq> 0 \<and> n > 1)"

subsection \<open>getOrCreateOperations\<close>

type_synonym resolver = "phase_ref \<Rightarrow> project_ref \<Rightarrow> state \<Rightarrow> (op_ref list \<times> state) option"

definition wire :: "resolver \<Rightarrow> op_ref \<Rightarrow> phase_ref \<Rightarrow> project_ref \<Rightarrow> state \<Rightarrow> state option" where
  \<comment> \<open>\<^verbatim>\<open>(await getOrCreateOperations(depPhase, p)).forEach((op) => target.addDependency(op))\<close>\<close>
  "wire rec target depPhase p st =
     (case rec depPhase p st of
        None \<Rightarrow> None
      | Some (ops, st') \<Rightarrow> Some (fold (\<lambda>op. addDependency target op) ops st'))"

definition create_unsharded :: "env \<Rightarrow> phase_ref \<Rightarrow> project_ref \<Rightarrow> string \<Rightarrow> state \<Rightarrow> op_ref \<times> state" where
  \<comment> \<open>lines 173-190: the Operation of an unsharded pair, its disposition, the memo entry\<close>
  "create_unsharded e ph pr key st =
     (let (operation, st1) = new_Operation pr ph None st;
          st2 = (if ph \<notin> set (phaseSelection e) \<or> pr \<notin> set (projectSelection e)
                 then set_runner operation (NullOperationRunner key Skipped True) st1
                 else if pr \<in> set (projectsInUnknownState e)
                 then mark_work operation st1
                 else st1);
          st3 = memo_set key [operation] st2;
          st4 = add_existing operation st3
      in (operation, st4))"

definition unsharded_branch ::
  "resolver \<Rightarrow> env \<Rightarrow> phase_ref \<Rightarrow> project_ref \<Rightarrow> string \<Rightarrow> state \<Rightarrow> (op_ref list \<times> state) option" where
  \<comment> \<open>lines 172-212. The memo gets the fresh array \<^verbatim>\<open>[operation]\<close> (line 189); the local
      \<^verbatim>\<open>operations\<close> is still the empty array of line 85 when line 215 returns it.\<close>
  "unsharded_branch rec e ph pr key st =
     (let operations = [];
          (operation, st4) = create_unsharded e ph pr key st
      in case for_of (phase_self e ph) (\<lambda>depPhase. wire rec operation depPhase pr) st4 of
           None \<Rightarrow> None
         | Some st5 \<Rightarrow>
            (case (if phase_upstream e ph \<noteq> [] then
                     (if dependencyProjects e pr \<noteq> [] then
                        for_of (phase_upstream e ph) (\<lambda>depPhase.
                          for_of (dependencyProjects e pr) (\<lambda>dependencyProject.
                            wire rec operation depPhase dependencyProject)) st5
                      else Some st5)
                   else Some st5) of
               None \<Rightarrow> None
             | Some st6 \<Rightarrow> Some (operations, st6)))"

definition create_boundaries :: "project_ref \<Rightarrow> phase_ref \<Rightarrow> state \<Rightarrow> (op_ref \<times> op_ref) \<times> state" where
  \<comment> \<open>lines 91-127: the restore and the save Operation, their runners, their registration\<close>
  "create_boundaries pr ph st =
     (let (buildCacheRestoreOperation, st1) = new_Operation pr ph None st;
          st2 = set_runner buildCacheRestoreOperation
                  (BoundaryRunner True False False True ''buildCacheRestore'' '''' Success) st1;
          (buildCacheSaveOperation, st3) = new_Operation pr ph None st2;
          st4 = set_runner buildCacheSaveOperation
                  (BoundaryRunner True False False True ''buildCacheSave'' '''' Success) st3;
          st5 = mark_work buildCacheRestoreOperation st4;
          st6 = mark_work buildCacheSaveOperation st5;
          st7 = add_existing buildCacheSaveOperation st6;
          st8 = add_existing buildCacheRestoreOperation st7
      in ((buildCacheRestoreOperation, buildCacheSaveOperation), st8))"

definition create_shard ::
  "project_ref \<Rightarrow> phase_ref \<Rightarrow> op_ref list \<Rightarrow> op_ref list \<Rightarrow> int \<Rightarrow> int \<Rightarrow>
   op_ref list \<times> state \<Rightarrow> op_ref list \<times> state" where
  \<comment> \<open>lines 157-169: one turn of the loop over the shard numbers\<close>
  "create_shard pr ph deps dependents shards' shard' acc =
     (let (operations, st) = acc;
          (shardOperation, st1) = new_Operation pr ph (Some (shard', shards')) st;
          st2 = fold (\<lambda>dependency. addDependency shardOperation dependency) deps st1;
          st3 = fold (\<lambda>dependent. addDependency dependent shardOperation) dependents st2;
          st4 = mark_work shardOperation st3;
          st5 = add_existing shardOperation st4
      in (operations @ [shardOperation], st5))"

definition sharded_branch ::
  "resolver \<Rightarrow> env \<Rightarrow> phase_ref \<Rightarrow> project_ref \<Rightarrow> string \<Rightarrow> int \<Rightarrow> state \<Rightarrow>
   (op_ref list \<times> state) option" where
  \<comment> \<open>lines 88-171\<close>
  "sharded_branch rec e ph pr key shards' st =
     (let ((buildCacheRestoreOperation, buildCacheSaveOperation), st8) = create_boundaries pr ph st;
          deps = [buildCacheRestoreOperation];
          dependents = [buildCacheSaveOperation];
          operations = deps @ dependents
      in case for_of (phase_self e ph) (\<lambda>depPhase.
                for_of deps (\<lambda>dependency. wire rec dependency depPhase pr)) st8 of
           None \<Rightarrow> None
         | Some st9 \<Rightarrow>
            (case (if phase_upstream e ph \<noteq> [] then
                     (if dependencyProjects e pr \<noteq> [] then
                        for_of (phase_upstream e ph) (\<lambda>depPhase.
                          for_of (dependencyProjects e pr) (\<lambda>dependencyProject.
                            for_of dependents (\<lambda>dependent.
                              wire rec dependent depPhase dependencyProject))) st9
                      else Some st9)
                   else Some st9) of
               None \<Rightarrow> None
             | Some st10 \<Rightarrow>
                (let (operations', st11) =
                       fold (create_shard pr ph deps dependents shards')
                         (map (\<lambda>index. int index + 1) [0..<nat shards']) (operations, st10)
                 in Some (operations', memo_set key operations' st11))))"

primrec getOrCreateOperations ::
  "nat \<Rightarrow> env \<Rightarrow> phase_ref \<Rightarrow> project_ref \<Rightarrow> state \<Rightarrow> (op_ref list \<times> state) option" where
  \<comment> \<open>lines 77-216. The recursion follows the phase data, which may be cyclic: the first
      argument bounds the depth of the calls, and \<open>None\<close> is a call that has not returned
      within it.\<close>
  "getOrCreateOperations 0 e ph pr st = None"
| "getOrCreateOperations (Suc n) e ph pr st =
     (let key = getOperationKey e ph pr in
      case map_of (allOperations st) key of
        Some operations \<Rightarrow> Some (operations, st)
      | None \<Rightarrow>
         (let shards' = getShards e ph pr in
          if is_sharded shards'
          then sharded_branch (getOrCreateOperations n e) e ph pr key (the shards') st
          else unsharded_branch (getOrCreateOperations n e) e ph pr key st))"

subsection \<open>Dirty propagation and finalization\<close>

definition consumers_of :: "Operation list \<Rightarrow> op_ref \<Rightarrow> op_ref list" where
  \<comment> \<open>\<^verbatim>\<open>operation.consumers\<close>; a reference always points into the heap\<close>
  "consumers_of h i = (if i < length h then consumers (h ! i) else [])"

definition all_consumers :: "Operation list \<Rightarrow> op_ref set" where
  "all_consumers h = (\<Union>x \<in> set h. set (consumers x))"

definition dups :: "'a list \<Rightarrow> nat" where
  "dups xs = length xs - card (set xs)"

text \<open>
  Lines 54-58. A \<^verbatim>\<open>for ... of\<close> over a \<^verbatim>\<open>Set\<close> visits the elements in insertion order and also
  the ones added during the loop, so the loop is a walk along the list with an index, the
  list growing at its end. It ends because every element added is a consumer of an Operation
  of the heap, of which there are finitely many.
\<close>

function propagate :: "Operation list \<Rightarrow> op_ref list \<Rightarrow> nat \<Rightarrow> op_ref list" where
  "propagate h ws i =
     (if i < length ws
      then propagate h (fold set_add (consumers_of h (ws ! i)) ws) (Suc i)
      else ws)"
  by pat_completeness auto
termination
proof (relation "measure (\<lambda>(h, ws, i). card (set ws \<union> all_consumers h) + dups ws - i)")
  show "wf (measure (\<lambda>(h, ws, i). card (set ws \<union> all_consumers h) + dups ws - i))" by simp
next
  fix h :: "Operation list" and ws :: "op_ref list" and i :: nat
  assume lt: "i < length ws"
  let ?cs = "consumers_of h (ws ! i)"
  let ?ws' = "fold set_add ?cs ws"
  have set_fold: "set (fold set_add cs xs) = set xs \<union> set cs" for cs xs :: "op_ref list"
    by (induction cs arbitrary: xs) (auto simp: set_add_def)
  have dups_add: "dups (set_add x xs) = dups xs" for x and xs :: "op_ref list"
    using card_length [of xs] by (cases "x \<in> set xs") (simp_all add: set_add_def dups_def)
  have dups_fold: "dups (fold set_add cs xs) = dups xs" for cs xs :: "op_ref list"
    by (induction cs arbitrary: xs) (simp_all add: dups_add)
  have sub: "set ?cs \<subseteq> all_consumers h"
  proof (cases "ws ! i < length h")
    case True
    then have "h ! (ws ! i) \<in> set h" by simp
    then have "set (consumers (h ! (ws ! i))) \<subseteq> (\<Union>x \<in> set h. set (consumers x))" by blast
    then show ?thesis using True by (simp add: consumers_of_def all_consumers_def)
  next
    case False
    then show ?thesis by (simp add: consumers_of_def)
  qed
  have s: "set ?ws' \<union> all_consumers h = set ws \<union> all_consumers h"
    using sub by (auto simp: set_fold)
  have "card (set ws) \<le> card (set ws \<union> all_consumers h)"
    by (rule card_mono) (simp_all add: all_consumers_def)
  moreover have "length ws = card (set ws) + dups ws"
    using card_length [of ws] by (simp add: dups_def)
  ultimately have "i < card (set ws \<union> all_consumers h) + dups ws"
    using lt by linarith
  then show "((h, ?ws', Suc i), (h, ws, i))
     \<in> measure (\<lambda>(h, ws, i). card (set ws \<union> all_consumers h) + dups ws - i)"
    by (simp add: s dups_fold)
qed

declare propagate.simps [simp del]

definition finalize_entry :: "string \<times> op_ref list \<Rightarrow> state \<Rightarrow> state" where
  \<comment> \<open>lines 61-71: the Operations of one memo entry\<close>
  "finalize_entry entry st =
     (let (key, operations) = entry in
      fold (\<lambda>operation st'.
              if operation \<notin> set (operationsWithWork st')
              then set_runner operation (NullOperationRunner key Skipped True) st'
              else st') operations st)"

definition finalize :: "state \<Rightarrow> state" where
  \<comment> \<open>lines 60-72\<close>
  "finalize st = fold finalize_entry (allOperations st) st"

definition resolve_selection :: "nat \<Rightarrow> env \<Rightarrow> state \<Rightarrow> state option" where
  \<comment> \<open>lines 47-51; the arrays that the calls return are dropped\<close>
  "resolve_selection fuel e st =
     for_of (phaseOriginal e) (\<lambda>phase'.
       for_of (projectSelection e) (\<lambda>project' st'.
         map_option snd (getOrCreateOperations fuel e phase' project' st'))) st"

definition initial_state :: "Operation list \<Rightarrow> op_ref list \<Rightarrow> state" where
  \<comment> \<open>lines 42 and 44: the work-tracking set and the memo of a pass start empty\<close>
  "initial_state h existing =
     \<lparr>heap = h, allOperations = [], operationsWithWork = [], existingOperations = existing\<rparr>"

definition createOperations :: "nat \<Rightarrow> env \<Rightarrow> Operation list \<Rightarrow> op_ref list \<Rightarrow> state option" where
  \<comment> \<open>lines 31-74. The set that line 74 returns is \<open>existingOperations\<close> of the result, whose
      heap holds the Operations as the pass leaves them.\<close>
  "createOperations fuel e h existing =
     (case resolve_selection fuel e (initial_state h existing) of
        None \<Rightarrow> None
      | Some st1 \<Rightarrow>
          Some (finalize
            (st1\<lparr>operationsWithWork := propagate (heap st1) (operationsWithWork st1) 0\<rparr>)))"

definition consumer_rel :: "Operation list \<Rightarrow> (op_ref \<times> op_ref) set" where
  \<comment> \<open>the consumer edges of a heap: \<open>(x, y)\<close> when \<open>y\<close> is in \<^verbatim>\<open>x.consumers\<close>\<close>
  "consumer_rel h = {(x, y). y \<in> set (consumers_of h x)}"

definition chain_heap :: "Operation list" where
  \<comment> \<open>three Operations in a chain: 1 consumes 0, 2 consumes 1\<close>
  "chain_heap =
     [\<lparr>project = 0, phase = 0, shard = None, dependencies = [], consumers = [1], runner = None\<rparr>,
      \<lparr>project = 0, phase = 1, shard = None, dependencies = [0], consumers = [2], runner = None\<rparr>,
      \<lparr>project = 0, phase = 2, shard = None, dependencies = [1], consumers = [], runner = None\<rparr>]"

subsection \<open>The steps of a pass\<close>

text \<open>
  What \<^verbatim>\<open>getOrCreateOperations\<close> does to the state, cut into the pieces between two
  recursive calls: the creation of the Operation of an unsharded pair (lines 173-190), the
  creation of the two boundary Operations (lines 91-127), one \<^verbatim>\<open>addDependency\<close> between
  Operations of the heap that were created during the pass (after the first \<open>l\<close> ones, which
  the caller passed in), the creation and registration of one shard Operation (lines
  157-164 and 167-169) and the memo entry of a sharded pair (line 171). Every pass is a
  sequence of such steps; invariants are proved step by step.
\<close>

inductive step :: "env \<Rightarrow> nat \<Rightarrow> state \<Rightarrow> state \<Rightarrow> bool" for e :: env and l :: nat where
  Unsharded:
    "map_of (allOperations st) (getOperationKey e ph pr) = None \<Longrightarrow>
     \<not> is_sharded (getShards e ph pr) \<Longrightarrow>
     step e l st (snd (create_unsharded e ph pr (getOperationKey e ph pr) st))"
| Boundaries:
    "is_sharded (getShards e ph pr) \<Longrightarrow> step e l st (snd (create_boundaries pr ph st))"
| Edge:
    "l \<le> a \<Longrightarrow> a < length (heap st) \<Longrightarrow> l \<le> b \<Longrightarrow> b < length (heap st) \<Longrightarrow>
     step e l st (addDependency a b st)"
| Shard:
    "is_sharded (getShards e ph pr) \<Longrightarrow>
     step e l st (snd (create_shard pr ph [] [] n k (ops, st)))"
| Memo:
    "is_sharded (getShards e ph pr) \<Longrightarrow>
     \<forall>i \<in> set ops. l \<le> i \<and> i < length (heap st) \<and> i \<in> set (operationsWithWork st) \<Longrightarrow>
     step e l st (memo_set (getOperationKey e ph pr) ops st)"

definition memo_valid :: "nat \<Rightarrow> state \<Rightarrow> bool" where
  \<comment> \<open>the memo holds references to Operations of the heap created after the first \<open>l\<close> ones\<close>
  "memo_valid l st =
     (l \<le> length (heap st) \<and>
      (\<forall>entry \<in> set (allOperations st). \<forall>i \<in> set (snd entry). l \<le> i \<and> i < length (heap st)))"

definition extends :: "state \<Rightarrow> state \<Rightarrow> bool" where
  \<comment> \<open>the heap and the two sets only grow, and an Operation keeps its project, phase and shard\<close>
  "extends st st' =
     (length (heap st) \<le> length (heap st') \<and>
      set (operationsWithWork st) \<subseteq> set (operationsWithWork st') \<and>
      set (existingOperations st) \<subseteq> set (existingOperations st') \<and>
      (\<forall>i < length (heap st).
         project (heap st' ! i) = project (heap st ! i) \<and>
         phase (heap st' ! i) = phase (heap st ! i) \<and>
         shard (heap st' ! i) = shard (heap st ! i)))"

definition traced :: "env \<Rightarrow> nat \<Rightarrow> resolver \<Rightarrow> bool" where
  \<comment> \<open>a resolver whose calls are sequences of steps and return references to Operations
      created after the first \<open>l\<close> ones\<close>
  "traced e l rec =
     (\<forall>ph pr st r st'. memo_valid l st \<longrightarrow> rec ph pr st = Some (r, st') \<longrightarrow>
        (step e l)\<^sup>*\<^sup>* st st' \<and> (\<forall>i \<in> set r. l \<le> i \<and> i < length (heap st')))"

definition keeps_entry :: "string \<Rightarrow> op_ref list \<Rightarrow> resolver \<Rightarrow> bool" where
  \<comment> \<open>a resolver whose calls leave the memo entry of the key \<open>k\<close> as it is\<close>
  "keeps_entry k v rec =
     (\<forall>ph pr st r st'. map_of (allOperations st) k = Some v \<longrightarrow> rec ph pr st = Some (r, st') \<longrightarrow>
        map_of (allOperations st') k = Some v)"

subsection \<open>Predicates of the claims\<close>

definition out_of_scope :: "env \<Rightarrow> phase_ref \<Rightarrow> project_ref \<Rightarrow> bool" where
  \<comment> \<open>the test of line 178\<close>
  "out_of_scope e ph pr = (ph \<notin> set (phaseSelection e) \<or> pr \<notin> set (projectSelection e))"

definition is_skip :: "IOperationRunner option \<Rightarrow> bool" where
  \<comment> \<open>a skip strategy: a \<^verbatim>\<open>NullOperationRunner\<close> whose fixed result is \<^verbatim>\<open>Skipped\<close>\<close>
  "is_skip r =
     (case r of Some (NullOperationRunner name' result silent) \<Rightarrow> result = Skipped | _ \<Rightarrow> False)"

definition pass_edges :: "Operation list \<Rightarrow> Operation list \<Rightarrow> bool" where
  \<comment> \<open>the edges of a heap \<open>h'\<close> that grew out of \<open>h\<close> by creating Operations and by calls of
      \<^verbatim>\<open>addDependency\<close> between the Operations created: the Operations of \<open>h\<close> have the edges they
      had; the edges of the Operations created point to Operations created; and among
      these, \<open>b\<close> is a dependency of \<open>a\<close> exactly when \<open>a\<close> is a consumer of \<open>b\<close>\<close>
  "pass_edges h h' =
     (length h \<le> length h' \<and>
      (\<forall>i < length h.
         dependencies (h' ! i) = dependencies (h ! i) \<and> consumers (h' ! i) = consumers (h ! i)) \<and>
      (\<forall>a. length h \<le> a \<and> a < length h' \<longrightarrow>
         (\<forall>b \<in> set (dependencies (h' ! a)) \<union> set (consumers (h' ! a)).
            length h \<le> b \<and> b < length h')) \<and>
      (\<forall>a b. length h \<le> a \<and> a < length h' \<and> length h \<le> b \<and> b < length h' \<longrightarrow>
         (b \<in> set (dependencies (h' ! a)) \<longleftrightarrow> a \<in> set (consumers (h' ! b)))))"

definition created_skipped :: "env \<Rightarrow> nat \<Rightarrow> state \<Rightarrow> bool" where
  \<comment> \<open>an Operation created after the first \<open>l\<close> ones for an unsharded pair out of scope has
      the skip runner of line 180\<close>
  "created_skipped e l st =
     (\<forall>i. l \<le> i \<and> i < length (heap st) \<longrightarrow>
        out_of_scope e (phase (heap st ! i)) (project (heap st ! i)) \<longrightarrow>
        \<not> is_sharded (getShards e (phase (heap st ! i)) (project (heap st ! i))) \<longrightarrow>
        runner (heap st ! i) =
          Some (NullOperationRunner
            (getOperationKey e (phase (heap st ! i)) (project (heap st ! i))) Skipped True))"

definition created_existing :: "nat \<Rightarrow> state \<Rightarrow> bool" where
  \<comment> \<open>the Operations created after the first \<open>l\<close> ones are in the operation set\<close>
  "created_existing l st =
     (\<forall>i. l \<le> i \<and> i < length (heap st) \<longrightarrow> i \<in> set (existingOperations st))"



subsection \<open>Example environments\<close>

text \<open>
  Projects \<open>0\<close>, \<open>1\<close>, \<open>2\<close> are the packages \<^verbatim>\<open>a\<close>, \<^verbatim>\<open>b\<close>, \<^verbatim>\<open>c\<close>; \<^verbatim>\<open>c\<close> depends on \<^verbatim>\<open>b\<close> and \<^verbatim>\<open>b\<close>
  on \<^verbatim>\<open>a\<close>. Phase \<open>0\<close> is \<^verbatim>\<open>build\<close>, which depends on the \<^verbatim>\<open>build\<close> of the upstream projects;
  phase \<open>1\<close> is \<^verbatim>\<open>test\<close>, which depends on the \<^verbatim>\<open>build\<close> of the same project. No project has a
  configuration. Everything is selected and \<^verbatim>\<open>a\<close> is possibly changed.
\<close>

definition env_abc :: env where
  "env_abc =
     \<lparr>phase_name = (\<lambda>p. if p = 0 then ''build'' else ''test''),
      phase_self = (\<lambda>p. if p = 0 then [] else [0]),
      phase_upstream = (\<lambda>p. if p = 0 then [0] else []),
      packageName = (\<lambda>p. if p = 0 then ''a'' else if p = 1 then ''b'' else ''c''),
      dependencyProjects = (\<lambda>p. if p = 0 then [] else if p = 1 then [0] else [1]),
      tryLoadForProjectAsync = (\<lambda>p. None),
      projectsInUnknownState = [0],
      phaseOriginal = [0],
      phaseSelection = [0],
      projectSelection = [0, 1, 2]\<rparr>"

definition env_skip_b :: env where
  \<comment> \<open>\<^verbatim>\<open>a\<close> and \<^verbatim>\<open>c\<close> are selected, \<^verbatim>\<open>b\<close> is reached as a dependency of \<^verbatim>\<open>c\<close> only\<close>
  "env_skip_b = env_abc\<lparr>projectSelection := [0, 2]\<rparr>"

definition sharded_build :: "RushProjectConfiguration" where
  \<comment> \<open>a project configuration that splits \<^verbatim>\<open>build\<close> into two shards\<close>
  "sharded_build =
     \<lparr>operationSettingsByOperationName =
        (\<lambda>name'. if name' = ''build'' then Some \<lparr>shards = Some 2\<rparr> else None)\<rparr>"

definition env_sharded_a :: env where
  \<comment> \<open>only \<^verbatim>\<open>b\<close> is selected; its dependency \<^verbatim>\<open>a\<close> is out of scope and its \<^verbatim>\<open>build\<close> is sharded\<close>
  "env_sharded_a =
     env_abc\<lparr>tryLoadForProjectAsync := (\<lambda>p. if p = 0 then Some sharded_build else None),
             projectSelection := [1]\<rparr>"

definition env_same_name :: env where
  \<comment> \<open>two projects with one package name: project \<open>0\<close>, whose \<^verbatim>\<open>build\<close> has two shards, depends
      on project \<open>1\<close>, whose \<^verbatim>\<open>build\<close> is not sharded; both are selected, none is changed\<close>
  "env_same_name =
     \<lparr>phase_name = (\<lambda>p. ''build''),
      phase_self = (\<lambda>p. []),
      phase_upstream = (\<lambda>p. [0]),
      packageName = (\<lambda>p. ''a''),
      dependencyProjects = (\<lambda>p. if p = 0 then [1] else []),
      tryLoadForProjectAsync = (\<lambda>p. if p = 0 then Some sharded_build else None),
      projectsInUnknownState = [],
      phaseOriginal = [0],
      phaseSelection = [0],
      projectSelection = [0, 1]\<rparr>"

definition sharded_test :: "RushProjectConfiguration" where
  \<comment> \<open>a project configuration that splits \<^verbatim>\<open>test\<close> into three shards\<close>
  "sharded_test =
     \<lparr>operationSettingsByOperationName =
        (\<lambda>name'. if name' = ''test'' then Some \<lparr>shards = Some 3\<rparr> else None)\<rparr>"

definition env_test_a :: env where
  \<comment> \<open>\<^verbatim>\<open>test\<close> is requested for the package \<^verbatim>\<open>a\<close>, whose \<^verbatim>\<open>test\<close> has three shards; \<^verbatim>\<open>build\<close>, the
      self-dependency of \<^verbatim>\<open>test\<close>, is in the phase selection\<close>
  "env_test_a =
     env_abc\<lparr>tryLoadForProjectAsync := (\<lambda>p. if p = 0 then Some sharded_test else None),
             phaseOriginal := [1],
             phaseSelection := [0, 1],
             projectSelection := [0]\<rparr>"

definition env_build_test_a :: env where
  \<comment> \<open>the same with \<^verbatim>\<open>build\<close> requested too, before \<^verbatim>\<open>test\<close>\<close>
  "env_build_test_a = env_test_a\<lparr>phaseOriginal := [0, 1]\<rparr>"

definition existing_heap :: "Operation list" where
  \<comment> \<open>one Operation that exists before the pass, with a runner of its own\<close>
  "existing_heap =
     [\<lparr>project = 7, phase = 7, shard = None, dependencies = [], consumers = [],
       runner = Some (ExternalRunner 0)\<rparr>]"

section \<open>Properties\<close>

subsection \<open>Sets in insertion order\<close>

lemma set_set_add [simp]: "set (set_add x xs) = insert x (set xs)"
  by (auto simp: set_add_def)

lemma set_fold_set_add: "set (fold set_add cs ws) = set ws \<union> set cs"
  by (induction cs arbitrary: ws) auto

lemma set_add_prefix: "\<exists>ys. set_add c ws = ws @ ys"
  by (simp add: set_add_def)

lemma fold_set_add_prefix: "\<exists>zs. fold set_add cs ws = ws @ zs"
proof (induction cs arbitrary: ws)
  case Nil
  then show ?case by simp
next
  case (Cons c cs)
  obtain zs where z: "fold set_add cs (set_add c ws) = set_add c ws @ zs" using Cons by blast
  obtain ys where y: "set_add c ws = ws @ ys" using set_add_prefix [of c ws] by (rule exE)
  have "fold set_add (c # cs) ws = ws @ (ys @ zs)"
    using z by (simp add: y)
  then show ?case by (rule exI)
qed

lemma set_add_idem: "set_add x (set_add x xs) = set_add x xs"
  by (simp add: set_add_def)

subsection \<open>Dirty propagation\<close>

lemma closed_rtrancl_Image:
  assumes "\<forall>x \<in> A. R `` {x} \<subseteq> A"
  shows "R\<^sup>* `` A \<subseteq> A"
proof
  fix y assume "y \<in> R\<^sup>* `` A"
  then obtain x where xA: "x \<in> A" and xy: "(x, y) \<in> R\<^sup>*" by blast
  from xy xA show "y \<in> A"
    by (induction rule: rtrancl_induct) (use assms in blast)+
qed

text \<open>
  The loop invariant: the list holds the initial members, holds only Operations reachable
  from them, and the consumers of every position already visited are in the list.
\<close>

lemma propagate_closure_aux:
  "S0 \<subseteq> set ws \<Longrightarrow> set ws \<subseteq> (consumer_rel h)\<^sup>* `` S0 \<Longrightarrow>
   (\<forall>j<i. set (consumers_of h (ws ! j)) \<subseteq> set ws) \<Longrightarrow> i \<le> length ws \<Longrightarrow>
   set (propagate h ws i) = (consumer_rel h)\<^sup>* `` S0"
proof (induction h ws i rule: propagate.induct)
  case (1 h ws i)
  let ?R = "consumer_rel h"
  show ?case
  proof (cases "i < length ws")
    case True
    let ?cs = "consumers_of h (ws ! i)"
    let ?ws' = "fold set_add ?cs ws"
    obtain zs where zs: "?ws' = ws @ zs" using fold_set_add_prefix by blast
    have set': "set ?ws' = set ws \<union> set ?cs" by (rule set_fold_set_add)
    have a: "S0 \<subseteq> set ?ws'" using "1.prems"(1) set' by blast
    have "ws ! i \<in> set ws" using True by simp
    then have wi: "ws ! i \<in> ?R\<^sup>* `` S0" using "1.prems"(2) by blast
    have "set ?cs \<subseteq> ?R\<^sup>* `` S0"
    proof
      fix y assume "y \<in> set ?cs"
      then have "(ws ! i, y) \<in> ?R" by (simp add: consumer_rel_def)
      with wi show "y \<in> ?R\<^sup>* `` S0" by (meson Image_iff rtrancl.rtrancl_into_rtrancl)
    qed
    then have b: "set ?ws' \<subseteq> ?R\<^sup>* `` S0" using "1.prems"(2) set' by blast
    have c: "\<forall>j<Suc i. set (consumers_of h (?ws' ! j)) \<subseteq> set ?ws'"
    proof (intro allI impI)
      fix j assume j: "j < Suc i"
      then have jl: "j < length ws" using True by simp
      then have e: "?ws' ! j = ws ! j" by (simp add: zs nth_append)
      show "set (consumers_of h (?ws' ! j)) \<subseteq> set ?ws'"
      proof (cases "j = i")
        case True
        then show ?thesis using e set' by auto
      next
        case False
        then have "j < i" using j by simp
        then show ?thesis using "1.prems"(3) e set' by auto
      qed
    qed
    have d: "Suc i \<le> length ?ws'" using True by (simp add: zs)
    have "set (propagate h ?ws' (Suc i)) = ?R\<^sup>* `` S0"
      using "1.IH" [OF True a b c d] .
    then show ?thesis using True by (subst propagate.simps) simp
  next
    case False
    then have il: "i = length ws" using "1.prems"(4) by simp
    have "\<forall>x \<in> set ws. ?R `` {x} \<subseteq> set ws"
    proof
      fix x assume "x \<in> set ws"
      then obtain j where "j < length ws" "ws ! j = x" by (auto simp: in_set_conv_nth)
      then show "?R `` {x} \<subseteq> set ws" using "1.prems"(3) il by (auto simp: consumer_rel_def)
    qed
    then have "?R\<^sup>* `` set ws \<subseteq> set ws" by (rule closed_rtrancl_Image)
    moreover have "?R\<^sup>* `` S0 \<subseteq> ?R\<^sup>* `` set ws" using "1.prems"(1) by blast
    ultimately have "set ws = ?R\<^sup>* `` S0" using "1.prems"(2) by blast
    then show ?thesis using False by (subst propagate.simps) simp
  qed
qed

lemma propagate_closure: "set (propagate h ws 0) = (consumer_rel h)\<^sup>* `` set ws"
  by (rule propagate_closure_aux) auto

text \<open>
  Claim C2. When the loop of lines 54-58 has ended, the work-tracking set is the forward
  closure of its initial contents under the consumer edges: an Operation is in it exactly
  when it is reachable from an initial member along zero or more consumer edges. The result
  depends on the initial contents and on the edges as sets only, not on the order in which
  the loop meets them.
\<close>

theorem C2_propagate_closure:
  "set (propagate h ws 0) = (consumer_rel h)\<^sup>* `` set ws \<and>
   (\<forall>h' ws'. set ws' = set ws \<and> consumer_rel h' = consumer_rel h \<longrightarrow>
      set (propagate h' ws' 0) = set (propagate h ws 0))"
  by (simp add: propagate_closure)

theorem C2_propagate_closure_witness:
  "(consumer_rel chain_heap)\<^sup>* `` {0} = {0, 1, 2} \<and>
   set (propagate chain_heap [1, 0] 0) = set (propagate chain_heap [0, 1] 0)"
proof -
  have p: "propagate chain_heap [0] 0 = [0, 1, 2]" by code_simp
  have "(consumer_rel chain_heap)\<^sup>* `` set [0] = set (propagate chain_heap [0] 0)"
    by (rule C2_propagate_closure [THEN conjunct1, symmetric])
  then have a: "(consumer_rel chain_heap)\<^sup>* `` {0} = {0, 1, 2}"
    by (simp add: p)
  have b: "set (propagate chain_heap [1, 0] 0) = set (propagate chain_heap [0, 1] 0)"
    by (rule C2_propagate_closure [THEN conjunct2, rule_format]) auto
  from a b show ?thesis by (rule conjI)
qed

subsection \<open>Effects of the steps\<close>

lemma new_Operation_simps [simp]:
  "fst (new_Operation pr ph sh st) = length (heap st)"
  "heap (snd (new_Operation pr ph sh st)) = heap st @
     [\<lparr>project = pr, phase = ph, shard = sh, dependencies = [], consumers = [], runner = None\<rparr>]"
  "allOperations (snd (new_Operation pr ph sh st)) = allOperations st"
  "operationsWithWork (snd (new_Operation pr ph sh st)) = operationsWithWork st"
  "existingOperations (snd (new_Operation pr ph sh st)) = existingOperations st"
  by (simp_all add: new_Operation_def)

lemma set_runner_simps [simp]:
  "heap (set_runner i r st) = (heap st)[i := (heap st ! i)\<lparr>runner := Some r\<rparr>]"
  "allOperations (set_runner i r st) = allOperations st"
  "operationsWithWork (set_runner i r st) = operationsWithWork st"
  "existingOperations (set_runner i r st) = existingOperations st"
  by (simp_all add: set_runner_def)

lemma mark_work_simps [simp]:
  "heap (mark_work i st) = heap st"
  "allOperations (mark_work i st) = allOperations st"
  "operationsWithWork (mark_work i st) = set_add i (operationsWithWork st)"
  "existingOperations (mark_work i st) = existingOperations st"
  by (simp_all add: mark_work_def)

lemma add_existing_simps [simp]:
  "heap (add_existing i st) = heap st"
  "allOperations (add_existing i st) = allOperations st"
  "operationsWithWork (add_existing i st) = operationsWithWork st"
  "existingOperations (add_existing i st) = set_add i (existingOperations st)"
  by (simp_all add: add_existing_def)

lemma memo_set_simps [simp]:
  "heap (memo_set k v st) = heap st"
  "allOperations (memo_set k v st) = AList.update k v (allOperations st)"
  "operationsWithWork (memo_set k v st) = operationsWithWork st"
  "existingOperations (memo_set k v st) = existingOperations st"
  by (simp_all add: memo_set_def)

lemma addDependency_simps [simp]:
  "length (heap (addDependency a b st)) = length (heap st)"
  "allOperations (addDependency a b st) = allOperations st"
  "operationsWithWork (addDependency a b st) = operationsWithWork st"
  "existingOperations (addDependency a b st) = existingOperations st"
  by (simp_all add: addDependency_def Let_def)

lemma nth_list_update_if:
  "xs[i := x] ! j = (if i = j \<and> i < length xs then x else xs ! j)"
  by (cases "i < length xs") (auto simp: nth_list_update list_update_beyond)

lemma addDependency_nth:
  assumes "i < length (heap st)"
  shows "project (heap (addDependency a b st) ! i) = project (heap st ! i)"
    and "phase (heap (addDependency a b st) ! i) = phase (heap st ! i)"
    and "shard (heap (addDependency a b st) ! i) = shard (heap st ! i)"
    and "runner (heap (addDependency a b st) ! i) = runner (heap st ! i)"
    and "dependencies (heap (addDependency a b st) ! i) =
           (if i = a then set_add b (dependencies (heap st ! i)) else dependencies (heap st ! i))"
    and "consumers (heap (addDependency a b st) ! i) =
           (if i = b then set_add a (consumers (heap st ! i)) else consumers (heap st ! i))"
  using assms by (simp_all add: addDependency_def Let_def nth_list_update_if)

lemma create_unsharded_simps [simp]:
  "fst (create_unsharded e ph pr key st) = length (heap st)"
  "heap (snd (create_unsharded e ph pr key st)) = heap st @
     [\<lparr>project = pr, phase = ph, shard = None, dependencies = [], consumers = [],
       runner = (if ph \<notin> set (phaseSelection e) \<or> pr \<notin> set (projectSelection e)
                 then Some (NullOperationRunner key Skipped True) else None)\<rparr>]"
  "allOperations (snd (create_unsharded e ph pr key st)) =
     AList.update key [length (heap st)] (allOperations st)"
  "operationsWithWork (snd (create_unsharded e ph pr key st)) =
     (if ph \<in> set (phaseSelection e) \<and> pr \<in> set (projectSelection e) \<and>
         pr \<in> set (projectsInUnknownState e)
      then set_add (length (heap st)) (operationsWithWork st) else operationsWithWork st)"
  "existingOperations (snd (create_unsharded e ph pr key st)) =
     set_add (length (heap st)) (existingOperations st)"
  by (simp_all add: create_unsharded_def Let_def split_beta)

lemma create_boundaries_simps [simp]:
  "fst (create_boundaries pr ph st) = (length (heap st), Suc (length (heap st)))"
  "heap (snd (create_boundaries pr ph st)) = heap st @
     [\<lparr>project = pr, phase = ph, shard = None, dependencies = [], consumers = [],
       runner = Some (BoundaryRunner True False False True ''buildCacheRestore'' '''' Success)\<rparr>,
      \<lparr>project = pr, phase = ph, shard = None, dependencies = [], consumers = [],
       runner = Some (BoundaryRunner True False False True ''buildCacheSave'' '''' Success)\<rparr>]"
  "allOperations (snd (create_boundaries pr ph st)) = allOperations st"
  "operationsWithWork (snd (create_boundaries pr ph st)) =
     set_add (Suc (length (heap st))) (set_add (length (heap st)) (operationsWithWork st))"
  "existingOperations (snd (create_boundaries pr ph st)) =
     set_add (length (heap st)) (set_add (Suc (length (heap st))) (existingOperations st))"
  by (simp_all add: create_boundaries_def Let_def split_beta nth_append list_update_append)

lemma create_shard_nil_simps [simp]:
  "fst (create_shard pr ph [] [] n k (ops, st)) = ops @ [length (heap st)]"
  "heap (snd (create_shard pr ph [] [] n k (ops, st))) = heap st @
     [\<lparr>project = pr, phase = ph, shard = Some (k, n), dependencies = [], consumers = [],
       runner = None\<rparr>]"
  "allOperations (snd (create_shard pr ph [] [] n k (ops, st))) = allOperations st"
  "operationsWithWork (snd (create_shard pr ph [] [] n k (ops, st))) =
     set_add (length (heap st)) (operationsWithWork st)"
  "existingOperations (snd (create_shard pr ph [] [] n k (ops, st))) =
     set_add (length (heap st)) (existingOperations st)"
  by (simp_all add: create_shard_def Let_def split_beta)

subsection \<open>Every call is a sequence of steps\<close>

lemma set_update_subset: "set (AList.update k v al) \<subseteq> insert (k, v) (set al)"
  by (induction al) auto


lemma extends_refl: "extends st st"
  by (simp add: extends_def)

lemma extends_trans: "extends s1 s2 \<Longrightarrow> extends s2 s3 \<Longrightarrow> extends s1 s3"
  unfolding extends_def by (intro conjI allI impI; (elim conjE)?) (auto dest: order_trans)

lemma step_extends: "step e l st st' \<Longrightarrow> extends st st'"
proof (induction rule: step.induct)
  case (Unsharded st ph pr)
  then show ?case by (auto simp: extends_def nth_append)
next
  case (Boundaries ph pr st)
  then show ?case by (auto simp: extends_def nth_append)
next
  case (Edge a st b)
  then show ?case by (auto simp: extends_def addDependency_nth)
next
  case (Shard ph pr st n k ops)
  then show ?case by (auto simp: extends_def nth_append)
next
  case (Memo ph pr ops st)
  then show ?case by (auto simp: extends_def)
qed

lemma steps_extends: "(step e l)\<^sup>*\<^sup>* st st' \<Longrightarrow> extends st st'"
  by (induction rule: rtranclp_induct) (auto intro: extends_refl extends_trans step_extends)

lemma step_memo_valid: "step e l st st' \<Longrightarrow> memo_valid l st \<Longrightarrow> memo_valid l st'"
proof (induction rule: step.induct)
  case (Unsharded st ph pr)
  then show ?case
    using set_update_subset [of "getOperationKey e ph pr" "[length (heap st)]" "allOperations st"]
    by (fastforce simp: memo_valid_def)
next
  case (Boundaries ph pr st)
  then show ?case by (fastforce simp: memo_valid_def)
next
  case (Edge a st b)
  then show ?case by (simp add: memo_valid_def)
next
  case (Shard ph pr st n k ops)
  then show ?case by (fastforce simp: memo_valid_def)
next
  case (Memo ph pr ops st)
  then show ?case
    using set_update_subset [of "getOperationKey e ph pr" ops "allOperations st"]
    by (fastforce simp: memo_valid_def)
qed

lemma steps_memo_valid: "(step e l)\<^sup>*\<^sup>* st st' \<Longrightarrow> memo_valid l st \<Longrightarrow> memo_valid l st'"
  by (induction rule: rtranclp_induct) (auto intro: step_memo_valid)

lemma for_of_steps:
  "(\<And>x s s'. x \<in> set xs \<Longrightarrow> I s \<Longrightarrow> body x s = Some s' \<Longrightarrow> R\<^sup>*\<^sup>* s s') \<Longrightarrow>
   (\<And>s s'. I s \<Longrightarrow> R\<^sup>*\<^sup>* s s' \<Longrightarrow> I s') \<Longrightarrow>
   I s \<Longrightarrow> for_of xs body s = Some s' \<Longrightarrow> R\<^sup>*\<^sup>* s s'"
proof (induction xs arbitrary: s)
  case Nil
  then show ?case by simp
next
  case (Cons x xs)
  from Cons.prems(4) obtain s1 where b: "body x s = Some s1" and r: "for_of xs body s1 = Some s'"
    by (auto split: option.splits)
  have 1: "R\<^sup>*\<^sup>* s s1" using Cons.prems(1) [of x s s1] Cons.prems(3) b by simp
  have i1: "I s1" using Cons.prems(2) [OF Cons.prems(3) 1] .
  have 2: "R\<^sup>*\<^sup>* s1 s'"
  proof (rule Cons.IH [OF _ _ i1 r])
    fix y t t' assume "y \<in> set xs" "I t" "body y t = Some t'"
    then show "R\<^sup>*\<^sup>* t t'" using Cons.prems(1) [of y t t'] by simp
  next
    fix t t' assume "I t" "R\<^sup>*\<^sup>* t t'"
    then show "I t'" by (rule Cons.prems(2))
  qed
  from 1 2 show ?case by (rule rtranclp_trans)
qed

lemma fold_addDependency_steps:
  "l \<le> t \<and> t < length (heap s) \<Longrightarrow> \<forall>i \<in> set r. l \<le> i \<and> i < length (heap s) \<Longrightarrow>
   (step e l)\<^sup>*\<^sup>* s (fold (addDependency t) r s)"
proof (induction r arbitrary: s)
  case Nil
  then show ?case by simp
next
  case (Cons a r)
  have 1: "step e l s (addDependency t a s)" using Cons.prems by (simp add: step.Edge)
  have 2: "(step e l)\<^sup>*\<^sup>* (addDependency t a s) (fold (addDependency t) r (addDependency t a s))"
    by (rule Cons.IH) (use Cons.prems in simp_all)
  from 1 2 show ?case by (simp add: converse_rtranclp_into_rtranclp)
qed

lemma fold_addDependency_to_steps:
  "l \<le> t \<and> t < length (heap s) \<Longrightarrow> \<forall>i \<in> set r. l \<le> i \<and> i < length (heap s) \<Longrightarrow>
   (step e l)\<^sup>*\<^sup>* s (fold (\<lambda>d. addDependency d t) r s)"
proof (induction r arbitrary: s)
  case Nil
  then show ?case by simp
next
  case (Cons a r)
  have 1: "step e l s (addDependency a t s)" using Cons.prems by (simp add: step.Edge)
  have 2: "(step e l)\<^sup>*\<^sup>* (addDependency a t s) (fold (\<lambda>d. addDependency d t) r (addDependency a t s))"
    by (rule Cons.IH) (use Cons.prems in simp_all)
  from 1 2 show ?case by (simp add: converse_rtranclp_into_rtranclp)
qed

lemma heap_length_mono: "(step e l)\<^sup>*\<^sup>* s s' \<Longrightarrow> i < length (heap s) \<Longrightarrow> i < length (heap s')"
  using steps_extends [of e l s s'] by (simp add: extends_def)

lemma wire_steps:
  assumes rec: "traced e l rec"
    and inv: "memo_valid l st \<and> l \<le> target \<and> target < length (heap st)"
    and w: "wire rec target dp p st = Some st'"
  shows "(step e l)\<^sup>*\<^sup>* st st'"
proof -
  from w obtain r st1 where r: "rec dp p st = Some (r, st1)"
    and st': "st' = fold (addDependency target) r st1"
    by (auto simp: wire_def split: option.splits)
  have 1: "(step e l)\<^sup>*\<^sup>* st st1" and v: "\<forall>i \<in> set r. l \<le> i \<and> i < length (heap st1)"
    using rec r inv unfolding traced_def by blast+
  have t: "l \<le> target \<and> target < length (heap st1)" using heap_length_mono [OF 1] inv by simp
  have 2: "(step e l)\<^sup>*\<^sup>* st1 st'" unfolding st' by (rule fold_addDependency_steps [OF t v])
  from 1 2 show ?thesis by (rule rtranclp_trans)
qed

lemma inv_steps:
  "memo_valid l s \<and> l \<le> t \<and> t < length (heap s) \<Longrightarrow> (step e l)\<^sup>*\<^sup>* s s' \<Longrightarrow>
   memo_valid l s' \<and> l \<le> t \<and> t < length (heap s')"
  using steps_memo_valid [of e l s s'] heap_length_mono [of e l s s' t] by simp

lemma wire_loop_steps:
  assumes rec: "traced e l rec"
    and inv: "memo_valid l st \<and> l \<le> target \<and> target < length (heap st)"
    and w: "for_of ps (\<lambda>p. wire rec target dp p) st = Some st'"
  shows "(step e l)\<^sup>*\<^sup>* st st'"
proof (rule for_of_steps [where I = "\<lambda>s. memo_valid l s \<and> l \<le> target \<and> target < length (heap s)", OF _ _ inv w])
  fix x s s' assume "memo_valid l s \<and> l \<le> target \<and> target < length (heap s)" "wire rec target dp x s = Some s'"
  then show "(step e l)\<^sup>*\<^sup>* s s'" using wire_steps [OF rec] by blast
next
  fix s s' assume "memo_valid l s \<and> l \<le> target \<and> target < length (heap s)" "(step e l)\<^sup>*\<^sup>* s s'"
  then show "memo_valid l s' \<and> l \<le> target \<and> target < length (heap s')" by (rule inv_steps)
qed

lemma wire_self_steps:
  assumes rec: "traced e l rec"
    and inv: "memo_valid l st \<and> l \<le> target \<and> target < length (heap st)"
    and w: "for_of dps (\<lambda>dp. wire rec target dp p) st = Some st'"
  shows "(step e l)\<^sup>*\<^sup>* st st'"
proof (rule for_of_steps [where I = "\<lambda>s. memo_valid l s \<and> l \<le> target \<and> target < length (heap s)", OF _ _ inv w])
  fix x s s' assume "memo_valid l s \<and> l \<le> target \<and> target < length (heap s)" "wire rec target x p s = Some s'"
  then show "(step e l)\<^sup>*\<^sup>* s s'" using wire_steps [OF rec] by blast
next
  fix s s' assume "memo_valid l s \<and> l \<le> target \<and> target < length (heap s)" "(step e l)\<^sup>*\<^sup>* s s'"
  then show "memo_valid l s' \<and> l \<le> target \<and> target < length (heap s')" by (rule inv_steps)
qed

lemma wire_upstream_steps:
  assumes rec: "traced e l rec"
    and inv: "memo_valid l st \<and> l \<le> target \<and> target < length (heap st)"
    and w: "for_of dps (\<lambda>dp. for_of ps (\<lambda>p. wire rec target dp p)) st = Some st'"
  shows "(step e l)\<^sup>*\<^sup>* st st'"
proof (rule for_of_steps [where I = "\<lambda>s. memo_valid l s \<and> l \<le> target \<and> target < length (heap s)", OF _ _ inv w])
  fix x s s'
  assume "memo_valid l s \<and> l \<le> target \<and> target < length (heap s)" "for_of ps (\<lambda>p. wire rec target x p) s = Some s'"
  then show "(step e l)\<^sup>*\<^sup>* s s'" using wire_loop_steps [OF rec] by blast
next
  fix s s' assume "memo_valid l s \<and> l \<le> target \<and> target < length (heap s)" "(step e l)\<^sup>*\<^sup>* s s'"
  then show "memo_valid l s' \<and> l \<le> target \<and> target < length (heap s')" by (rule inv_steps)
qed

lemma unsharded_branch_steps:
  assumes rec: "traced e l rec"
    and mv: "memo_valid l st"
    and miss: "map_of (allOperations st) (getOperationKey e ph pr) = None"
    and ns: "\<not> is_sharded (getShards e ph pr)"
    and ub: "unsharded_branch rec e ph pr (getOperationKey e ph pr) st = Some (r, st')"
  shows "(step e l)\<^sup>*\<^sup>* st st' \<and> r = []"
proof -
  let ?key = "getOperationKey e ph pr"
  let ?st4 = "snd (create_unsharded e ph pr ?key st)"
  let ?op = "length (heap st)"
  let ?up = "\<lambda>s. if phase_upstream e ph \<noteq> [] then
                 (if dependencyProjects e pr \<noteq> [] then
                    for_of (phase_upstream e ph) (\<lambda>depPhase.
                      for_of (dependencyProjects e pr) (\<lambda>dependencyProject.
                        wire rec ?op depPhase dependencyProject)) s
                  else Some s)
               else Some s"
  from ub obtain st5 where
    l1: "for_of (phase_self e ph) (\<lambda>depPhase. wire rec ?op depPhase pr) ?st4 = Some st5"
    and l2: "?up st5 = Some st'" and r: "r = []"
    by (simp add: unsharded_branch_def split_beta split: option.splits
        cong del: if_weak_cong option.case_cong_weak)
  have s1: "step e l st ?st4" using miss ns by (rule step.Unsharded)
  have i4: "memo_valid l ?st4 \<and> l \<le> ?op \<and> ?op < length (heap ?st4)"
    using step_memo_valid [OF s1 mv] mv by (simp add: memo_valid_def)
  have s2: "(step e l)\<^sup>*\<^sup>* ?st4 st5" by (rule wire_self_steps [OF rec i4 l1])
  have i5: "memo_valid l st5 \<and> l \<le> ?op \<and> ?op < length (heap st5)"
    by (rule inv_steps [OF i4 s2])
  have s3: "(step e l)\<^sup>*\<^sup>* st5 st'"
  proof (cases "phase_upstream e ph \<noteq> [] \<and> dependencyProjects e pr \<noteq> []")
    case True
    then have "for_of (phase_upstream e ph) (\<lambda>depPhase.
        for_of (dependencyProjects e pr) (\<lambda>dependencyProject.
          wire rec ?op depPhase dependencyProject)) st5 = Some st'"
      using l2 by simp
    then show ?thesis by (rule wire_upstream_steps [OF rec i5])
  next
    case False
    then have "st' = st5" using l2 by (auto split: if_splits)
    then show ?thesis by simp
  qed
  have "(step e l)\<^sup>*\<^sup>* st st'"
    using s1 s2 s3 by (meson converse_rtranclp_into_rtranclp rtranclp_trans)
  then show ?thesis using r by simp
qed

lemma mark_work_addDependency: "mark_work i (addDependency a b s) = addDependency a b (mark_work i s)"
  by (simp add: mark_work_def addDependency_def Let_def)

lemma add_existing_addDependency:
  "add_existing i (addDependency a b s) = addDependency a b (add_existing i s)"
  by (simp add: add_existing_def addDependency_def Let_def)

lemma mark_work_fold_addDependency:
  "mark_work i (fold (addDependency t) r s) = fold (addDependency t) r (mark_work i s)"
  by (induction r arbitrary: s) (simp_all add: mark_work_addDependency)

lemma mark_work_fold_addDependency_to:
  "mark_work i (fold (\<lambda>d. addDependency d t) r s) = fold (\<lambda>d. addDependency d t) r (mark_work i s)"
  by (induction r arbitrary: s) (simp_all add: mark_work_addDependency)

lemma add_existing_fold_addDependency:
  "add_existing i (fold (addDependency t) r s) = fold (addDependency t) r (add_existing i s)"
  by (induction r arbitrary: s) (simp_all add: add_existing_addDependency)

lemma add_existing_fold_addDependency_to:
  "add_existing i (fold (\<lambda>d. addDependency d t) r s) =
     fold (\<lambda>d. addDependency d t) r (add_existing i s)"
  by (induction r arbitrary: s) (simp_all add: add_existing_addDependency)

lemma create_shard_decomp:
  "create_shard pr ph deps dependents n k (ops, st) =
     (ops @ [length (heap st)],
      fold (\<lambda>d. addDependency d (length (heap st))) dependents
        (fold (addDependency (length (heap st))) deps
           (snd (create_shard pr ph [] [] n k (ops, st)))))"
proof -
  let ?i = "length (heap st)"
  let ?s1 = "snd (new_Operation pr ph (Some (k, n)) st)"
  let ?F = "\<lambda>s. fold (\<lambda>d. addDependency d ?i) dependents (fold (addDependency ?i) deps s)"
  have m: "mark_work ?i (?F s) = ?F (mark_work ?i s)" for s
    by (simp add: mark_work_fold_addDependency mark_work_fold_addDependency_to)
  have a: "add_existing ?i (?F s) = ?F (add_existing ?i s)" for s
    by (simp add: add_existing_fold_addDependency add_existing_fold_addDependency_to)
  show ?thesis
    by (simp add: create_shard_def split_beta m a)
qed

lemma length_heap_fold_addDependency [simp]:
  "length (heap (fold (addDependency t) r s)) = length (heap s)"
  by (induction r arbitrary: s) simp_all

lemma length_heap_fold_addDependency_to [simp]:
  "length (heap (fold (\<lambda>d. addDependency d t) r s)) = length (heap s)"
  by (induction r arbitrary: s) simp_all

lemma create_shard_steps:
  assumes sh: "is_sharded (getShards e ph pr)"
    and v: "\<forall>d \<in> set deps \<union> set dependents. l \<le> d \<and> d < length (heap st)"
    and lb: "l \<le> length (heap st)"
  shows "(step e l)\<^sup>*\<^sup>* st (snd (create_shard pr ph deps dependents n k (ops, st)))"
proof -
  let ?i = "length (heap st)"
  let ?s1 = "snd (create_shard pr ph [] [] n k (ops, st))"
  let ?s2 = "fold (addDependency ?i) deps ?s1"
  let ?s3 = "fold (\<lambda>d. addDependency d ?i) dependents ?s2"
  have 1: "step e l st ?s1" using sh by (rule step.Shard)
  have 2: "(step e l)\<^sup>*\<^sup>* ?s1 ?s2"
    by (rule fold_addDependency_steps) (use v lb in \<open>simp_all add: ball_Un less_Suc_eq\<close>)
  have l: "length (heap ?s2) = Suc ?i" by simp
  have 3: "(step e l)\<^sup>*\<^sup>* ?s2 ?s3"
    by (rule fold_addDependency_to_steps) (use v lb in \<open>simp_all add: ball_Un less_Suc_eq\<close>)
  have "(step e l)\<^sup>*\<^sup>* st ?s3"
    using 1 2 3 by (meson converse_rtranclp_into_rtranclp rtranclp_trans)
  then show ?thesis by (subst create_shard_decomp) simp
qed

lemma fold_addDependency_fields [simp]:
  "allOperations (fold (addDependency t) r s) = allOperations s"
  "operationsWithWork (fold (addDependency t) r s) = operationsWithWork s"
  "existingOperations (fold (addDependency t) r s) = existingOperations s"
  by (induction r arbitrary: s) simp_all

lemma fold_addDependency_to_fields [simp]:
  "allOperations (fold (\<lambda>d. addDependency d t) r s) = allOperations s"
  "operationsWithWork (fold (\<lambda>d. addDependency d t) r s) = operationsWithWork s"
  "existingOperations (fold (\<lambda>d. addDependency d t) r s) = existingOperations s"
  by (induction r arbitrary: s) simp_all

lemma for_of_single: "for_of [x] body = body x"
  by (rule ext) (simp split: option.splits)

lemma shards_loop_steps:
  assumes sh: "is_sharded (getShards e ph pr)"
  shows "\<forall>d \<in> set deps \<union> set dependents. l \<le> d \<and> d < length (heap st) \<Longrightarrow>
    \<forall>i \<in> set ops. l \<le> i \<and> i < length (heap st) \<and> i \<in> set (operationsWithWork st) \<Longrightarrow>
    l \<le> length (heap st) \<Longrightarrow>
    fold (create_shard pr ph deps dependents n) ks (ops, st) = (ops', st') \<Longrightarrow>
    (step e l)\<^sup>*\<^sup>* st st' \<and>
    (\<forall>i \<in> set ops'. l \<le> i \<and> i < length (heap st') \<and> i \<in> set (operationsWithWork st')) \<and>
    length ops' = length ops + length ks"
proof (induction ks arbitrary: ops st)
  case Nil
  then show ?case by simp
next
  case (Cons k ks)
  let ?i = "length (heap st)"
  let ?c = "create_shard pr ph deps dependents n k (ops, st)"
  let ?st1 = "snd ?c"
  have f: "fst ?c = ops @ [?i]" by (subst create_shard_decomp) simp
  have l: "length (heap ?st1) = Suc ?i" by (subst create_shard_decomp) simp
  have w: "operationsWithWork ?st1 = set_add ?i (operationsWithWork st)"
    by (subst create_shard_decomp) simp
  have 1: "(step e l)\<^sup>*\<^sup>* st ?st1"
    by (rule create_shard_steps [OF sh Cons.prems(1) Cons.prems(3)])
  have d1: "\<forall>d \<in> set deps \<union> set dependents. l \<le> d \<and> d < length (heap ?st1)"
    using Cons.prems(1) l by (simp add: ball_Un less_Suc_eq)
  have o1: "\<forall>i \<in> set (ops @ [?i]).
      l \<le> i \<and> i < length (heap ?st1) \<and> i \<in> set (operationsWithWork ?st1)"
    using Cons.prems(2,3) l w by (simp add: less_Suc_eq)
  have lb1: "l \<le> length (heap ?st1)" using Cons.prems(3) l by simp
  have "fold (create_shard pr ph deps dependents n) ks (ops @ [?i], ?st1) = (ops', st')"
    using Cons.prems(4) by (simp add: f [symmetric])
  from Cons.IH [OF d1 o1 lb1 this] 1 show ?case by (auto intro: rtranclp_trans)
qed

lemma sharded_branch_steps:
  assumes rec: "traced e l rec"
    and mv: "memo_valid l st"
    and sh: "is_sharded (getShards e ph pr)"
    and sb: "sharded_branch rec e ph pr (getOperationKey e ph pr) n st = Some (r, st')"
  shows "(step e l)\<^sup>*\<^sup>* st st' \<and> (\<forall>i \<in> set r. l \<le> i \<and> i < length (heap st'))"
proof -
  let ?key = "getOperationKey e ph pr"
  let ?st8 = "snd (create_boundaries pr ph st)"
  let ?restore = "length (heap st)"
  let ?save = "Suc (length (heap st))"
  let ?up = "\<lambda>s. if phase_upstream e ph \<noteq> [] then
                 (if dependencyProjects e pr \<noteq> [] then
                    for_of (phase_upstream e ph) (\<lambda>depPhase.
                      for_of (dependencyProjects e pr) (\<lambda>dependencyProject.
                        wire rec ?save depPhase dependencyProject)) s
                  else Some s)
               else Some s"
  let ?loop = "\<lambda>s. fold (create_shard pr ph [?restore] [?save] n)
               (map (\<lambda>index. int index + 1) [0..<nat n]) ([?restore, ?save], s)"
  from sb obtain st9 st10 where
    l1: "for_of (phase_self e ph) (\<lambda>depPhase. wire rec ?restore depPhase pr) ?st8 = Some st9"
    and l2: "?up st9 = Some st10"
    and r: "r = fst (?loop st10)" and st': "st' = memo_set ?key (fst (?loop st10)) (snd (?loop st10))"
    by (simp add: sharded_branch_def Let_def split_beta for_of_single
        split: option.splits cong del: if_weak_cong option.case_cong_weak) blast
  obtain ops' st11 where l3: "?loop st10 = (ops', st11)" by (cases "?loop st10")
  have r: "r = ops'" and st': "st' = memo_set ?key ops' st11" using r st' l3 by simp_all
  have s1: "step e l st ?st8" using sh by (rule step.Boundaries)
  have mv8: "memo_valid l ?st8" by (rule step_memo_valid [OF s1 mv])
  have lb: "l \<le> length (heap st)" using mv by (simp add: memo_valid_def)
  have s2: "(step e l)\<^sup>*\<^sup>* ?st8 st9"
    by (rule wire_self_steps [OF rec _ l1]) (simp add: mv8 lb)
  have i9: "memo_valid l st9 \<and> l \<le> ?save \<and> ?save < length (heap st9)"
    by (rule inv_steps [OF _ s2]) (simp add: mv8 lb le_SucI)
  have s3: "(step e l)\<^sup>*\<^sup>* st9 st10"
  proof (cases "phase_upstream e ph \<noteq> [] \<and> dependencyProjects e pr \<noteq> []")
    case True
    then have "for_of (phase_upstream e ph) (\<lambda>depPhase.
        for_of (dependencyProjects e pr) (\<lambda>dependencyProject.
          wire rec ?save depPhase dependencyProject)) st9 = Some st10"
      using l2 by simp
    then show ?thesis by (rule wire_upstream_steps [OF rec i9])
  next
    case False
    then have "st10 = st9" using l2 by (auto split: if_splits)
    then show ?thesis by simp
  qed
  have s810: "(step e l)\<^sup>*\<^sup>* ?st8 st10" using s2 s3 by (rule rtranclp_trans)
  have e10: "extends ?st8 st10" by (rule steps_extends [OF s810])
  have v10: "\<forall>d \<in> set [?restore] \<union> set [?save]. l \<le> d \<and> d < length (heap st10)"
    using e10 lb by (simp add: extends_def)
  have w10: "\<forall>i \<in> set [?restore, ?save].
      l \<le> i \<and> i < length (heap st10) \<and> i \<in> set (operationsWithWork st10)"
    using e10 lb by (auto simp: extends_def)
  have lb10: "l \<le> length (heap st10)" using e10 lb by (simp add: extends_def)
  from shards_loop_steps [OF sh v10 w10 lb10 l3]
  have s4: "(step e l)\<^sup>*\<^sup>* st10 st11"
    and o11: "\<forall>i \<in> set ops'.
      l \<le> i \<and> i < length (heap st11) \<and> i \<in> set (operationsWithWork st11)"
    by simp_all
  have s5: "step e l st11 st'" unfolding st' using sh o11 by (rule step.Memo)
  have "(step e l)\<^sup>*\<^sup>* st st'"
    using s1 s810 s4 s5
    by (meson converse_rtranclp_into_rtranclp rtranclp.rtrancl_into_rtrancl rtranclp_trans)
  moreover have "\<forall>i \<in> set r. l \<le> i \<and> i < length (heap st')" using o11 r st' by simp
  ultimately show ?thesis by simp
qed

lemma getOrCreateOperations_traced: "traced e l (getOrCreateOperations n e)"
proof (induction n)
  case 0
  show ?case by (simp add: traced_def)
next
  case (Suc n)
  show ?case unfolding traced_def
  proof (intro allI impI)
    fix ph pr st r st'
    assume mv: "memo_valid l st"
      and g: "getOrCreateOperations (Suc n) e ph pr st = Some (r, st')"
    let ?key = "getOperationKey e ph pr"
    show "(step e l)\<^sup>*\<^sup>* st st' \<and> (\<forall>i \<in> set r. l \<le> i \<and> i < length (heap st'))"
    proof (cases "map_of (allOperations st) ?key")
      case (Some ops)
      then have "r = ops" "st' = st" using g by simp_all
      moreover have "(?key, ops) \<in> set (allOperations st)" using Some by (rule map_of_SomeD)
      ultimately show ?thesis using mv by (fastforce simp: memo_valid_def)
    next
      case None
      show ?thesis
      proof (cases "is_sharded (getShards e ph pr)")
        case True
        then have "sharded_branch (getOrCreateOperations n e) e ph pr ?key
            (the (getShards e ph pr)) st = Some (r, st')"
          using g None by simp
        then show ?thesis by (rule sharded_branch_steps [OF Suc mv True])
      next
        case False
        then have "unsharded_branch (getOrCreateOperations n e) e ph pr ?key st = Some (r, st')"
          using g None by simp
        from unsharded_branch_steps [OF Suc mv None False this] show ?thesis by simp
      qed
    qed
  qed
qed

lemma resolve_selection_steps:
  assumes mv: "memo_valid l st" and rs: "resolve_selection n e st = Some st'"
  shows "(step e l)\<^sup>*\<^sup>* st st'"
proof -
  have call: "(step e l)\<^sup>*\<^sup>* s s'"
    if "memo_valid l s" "map_option snd (getOrCreateOperations n e ph pr s) = Some s'" for ph pr s s'
  proof -
    from that(2) obtain r where "getOrCreateOperations n e ph pr s = Some (r, s')" by auto
    with that(1) getOrCreateOperations_traced [of e l n] show ?thesis
      unfolding traced_def by blast
  qed
  have inner: "(step e l)\<^sup>*\<^sup>* s s'"
    if "memo_valid l s"
      "for_of (projectSelection e) (\<lambda>project' st'.
         map_option snd (getOrCreateOperations n e ph project' st')) s = Some s'" for ph s s'
  proof (rule for_of_steps [where I = "memo_valid l", OF _ _ that])
    fix x t t'
    assume "memo_valid l t" "map_option snd (getOrCreateOperations n e ph x t) = Some t'"
    then show "(step e l)\<^sup>*\<^sup>* t t'" by (rule call)
  next
    fix t t' assume "memo_valid l t" "(step e l)\<^sup>*\<^sup>* t t'"
    then show "memo_valid l t'" by (simp add: steps_memo_valid)
  qed
  have rs': "for_of (phaseOriginal e) (\<lambda>phase'.
       for_of (projectSelection e) (\<lambda>project' st'.
         map_option snd (getOrCreateOperations n e phase' project' st'))) st = Some st'"
    using rs by (simp add: resolve_selection_def)
  show ?thesis
  proof (rule for_of_steps [where I = "memo_valid l", OF _ _ mv rs'])
    fix x t t'
    assume "memo_valid l t"
      "for_of (projectSelection e) (\<lambda>project' st'.
         map_option snd (getOrCreateOperations n e x project' st')) t = Some t'"
    then show "(step e l)\<^sup>*\<^sup>* t t'" by (rule inner)
  next
    fix t t' assume "memo_valid l t" "(step e l)\<^sup>*\<^sup>* t t'"
    then show "memo_valid l t'" by (simp add: steps_memo_valid)
  qed
qed

lemma memo_valid_initial: "memo_valid (length h) (initial_state h existing)"
  by (simp add: memo_valid_def initial_state_def)

lemma createOperations_decomp:
  assumes "createOperations n e h existing = Some st'"
  obtains st1 where "(step e (length h))\<^sup>*\<^sup>* (initial_state h existing) st1"
    and "st' = finalize (st1\<lparr>operationsWithWork := propagate (heap st1) (operationsWithWork st1) 0\<rparr>)"
proof -
  from assms obtain st1 where rs: "resolve_selection n e (initial_state h existing) = Some st1"
    and st': "st' = finalize (st1\<lparr>operationsWithWork := propagate (heap st1) (operationsWithWork st1) 0\<rparr>)"
    by (auto simp: createOperations_def split: option.splits)
  from resolve_selection_steps [OF memo_valid_initial rs] st' that show ?thesis by blast
qed

subsection \<open>Finalization\<close>

lemma finalize_fold_fields [simp]:
  "allOperations (fold (\<lambda>operation st'. if operation \<notin> set (operationsWithWork st')
       then set_runner operation r st' else st') ops st) = allOperations st"
  "operationsWithWork (fold (\<lambda>operation st'. if operation \<notin> set (operationsWithWork st')
       then set_runner operation r st' else st') ops st) = operationsWithWork st"
  "existingOperations (fold (\<lambda>operation st'. if operation \<notin> set (operationsWithWork st')
       then set_runner operation r st' else st') ops st) = existingOperations st"
  "length (heap (fold (\<lambda>operation st'. if operation \<notin> set (operationsWithWork st')
       then set_runner operation r st' else st') ops st)) = length (heap st)"
  by (induction ops arbitrary: st) simp_all

lemma finalize_entry_fields [simp]:
  "allOperations (finalize_entry entry st) = allOperations st"
  "operationsWithWork (finalize_entry entry st) = operationsWithWork st"
  "existingOperations (finalize_entry entry st) = existingOperations st"
  "length (heap (finalize_entry entry st)) = length (heap st)"
  by (simp_all add: finalize_entry_def split_beta)

lemma fold_finalize_entry_fields [simp]:
  "allOperations (fold finalize_entry entries st) = allOperations st"
  "operationsWithWork (fold finalize_entry entries st) = operationsWithWork st"
  "existingOperations (fold finalize_entry entries st) = existingOperations st"
  "length (heap (fold finalize_entry entries st)) = length (heap st)"
  by (induction entries arbitrary: st) simp_all

lemma finalize_fields [simp]:
  "allOperations (finalize st) = allOperations st"
  "operationsWithWork (finalize st) = operationsWithWork st"
  "existingOperations (finalize st) = existingOperations st"
  "length (heap (finalize st)) = length (heap st)"
  by (simp_all add: finalize_def)

text \<open>
  A property of the Operation at one reference that every assignment of a skip runner
  keeps is kept by the whole finalization.
\<close>

lemma finalize_fold_keeps:
  assumes keep: "\<forall>x key. P x \<longrightarrow> P (x\<lparr>runner := Some (NullOperationRunner key Skipped True)\<rparr>)"
  shows "P (heap st ! i) \<Longrightarrow>
    P (heap (fold (\<lambda>operation st'. if operation \<notin> set (operationsWithWork st')
       then set_runner operation (NullOperationRunner key Skipped True) st' else st') ops st) ! i)"
proof (induction ops arbitrary: st)
  case Nil
  then show ?case by simp
next
  case (Cons a ops)
  show ?case
  proof (cases "a \<notin> set (operationsWithWork st)")
    case True
    have "P (heap (set_runner a (NullOperationRunner key Skipped True) st) ! i)"
      using Cons.prems keep by (simp add: nth_list_update_if)
    from Cons.IH [OF this] True show ?thesis by simp
  next
    case False
    with Cons.IH [OF Cons.prems] show ?thesis by simp
  qed
qed

lemma finalize_entry_keeps:
  assumes keep: "\<forall>x key. P x \<longrightarrow> P (x\<lparr>runner := Some (NullOperationRunner key Skipped True)\<rparr>)"
  shows "P (heap st ! i) \<Longrightarrow> P (heap (finalize_entry entry st) ! i)"
  unfolding finalize_entry_def split_beta Let_def
  by (rule finalize_fold_keeps [where P = P, OF keep])

lemma fold_finalize_entry_keeps:
  assumes keep: "\<forall>x key. P x \<longrightarrow> P (x\<lparr>runner := Some (NullOperationRunner key Skipped True)\<rparr>)"
  shows "P (heap st ! i) \<Longrightarrow> P (heap (fold finalize_entry entries st) ! i)"
proof (induction entries arbitrary: st)
  case Nil
  then show ?case by simp
next
  case (Cons a entries)
  have "P (heap (finalize_entry a st) ! i)"
    using Cons.prems by (rule finalize_entry_keeps [where P = P, OF keep])
  from Cons.IH [OF this] show ?case by simp
qed

lemma finalize_keeps:
  assumes keep: "\<forall>x key. P x \<longrightarrow> P (x\<lparr>runner := Some (NullOperationRunner key Skipped True)\<rparr>)"
  shows "P (heap st ! i) \<Longrightarrow> P (heap (finalize st) ! i)"
  unfolding finalize_def by (rule fold_finalize_entry_keeps [where P = P, OF keep])

subsection \<open>Invariants of the steps\<close>

lemma step_created_skipped: "step e l st st' \<Longrightarrow> created_skipped e l st \<Longrightarrow> created_skipped e l st'"
proof (induction rule: step.induct)
  case (Unsharded st ph pr)
  then show ?case
    by (auto simp: created_skipped_def nth_append less_Suc_eq out_of_scope_def)
next
  case (Boundaries ph pr st)
  then show ?case
    by (auto simp: created_skipped_def nth_append less_Suc_eq)
next
  case (Edge a st b)
  then show ?case by (simp add: created_skipped_def addDependency_nth)
next
  case (Shard ph pr st n k ops)
  then show ?case
    by (auto simp: created_skipped_def nth_append less_Suc_eq)
next
  case (Memo ph pr ops st)
  then show ?case by (simp add: created_skipped_def)
qed

lemma steps_created_skipped:
  "(step e l)\<^sup>*\<^sup>* st st' \<Longrightarrow> created_skipped e l st \<Longrightarrow> created_skipped e l st'"
  by (induction rule: rtranclp_induct) (auto intro: step_created_skipped)

lemma step_created_existing: "step e l st st' \<Longrightarrow> created_existing l st \<Longrightarrow> created_existing l st'"
proof (induction rule: step.induct)
  case (Unsharded st ph pr)
  then show ?case by (auto simp: created_existing_def less_Suc_eq)
next
  case (Boundaries ph pr st)
  then show ?case by (auto simp: created_existing_def less_Suc_eq)
next
  case (Edge a st b)
  then show ?case by (simp add: created_existing_def)
next
  case (Shard ph pr st n k ops)
  then show ?case by (auto simp: created_existing_def less_Suc_eq)
next
  case (Memo ph pr ops st)
  then show ?case by (simp add: created_existing_def)
qed

lemma steps_created_existing:
  "(step e l)\<^sup>*\<^sup>* st st' \<Longrightarrow> created_existing l st \<Longrightarrow> created_existing l st'"
  by (induction rule: rtranclp_induct) (auto intro: step_created_existing)

subsection \<open>The returned operation set\<close>

lemma step_existing_prefix:
  "step e l st st' \<Longrightarrow> \<exists>zs. existingOperations st' = existingOperations st @ zs"
proof (induction rule: step.induct)
  case (Unsharded st ph pr)
  then show ?case by (simp add: set_add_prefix)
next
  case (Boundaries ph pr st)
  obtain ys where ys: "set_add (Suc (length (heap st))) (existingOperations st) =
      existingOperations st @ ys"
    using set_add_prefix [of "Suc (length (heap st))" "existingOperations st"] by (rule exE)
  obtain zs where "set_add (length (heap st)) (existingOperations st @ ys) =
      (existingOperations st @ ys) @ zs"
    using set_add_prefix [of "length (heap st)" "existingOperations st @ ys"] by (rule exE)
  then show ?case by (simp add: ys)
next
  case (Edge a st b)
  then show ?case by simp
next
  case (Shard ph pr st n k ops)
  then show ?case by (simp add: set_add_prefix)
next
  case (Memo ph pr ops st)
  then show ?case by simp
qed

lemma steps_existing_prefix:
  "(step e l)\<^sup>*\<^sup>* st st' \<Longrightarrow> \<exists>zs. existingOperations st' = existingOperations st @ zs"
proof (induction rule: rtranclp_induct)
  case base
  then show ?case by simp
next
  case (step y z)
  from step.IH obtain ys where ys: "existingOperations y = existingOperations st @ ys" by (rule exE)
  from step_existing_prefix [OF step.hyps(2)]
  obtain zs where "existingOperations z = existingOperations y @ zs" by (rule exE)
  then have "existingOperations z = existingOperations st @ (ys @ zs)" by (simp add: ys)
  then show ?case by (rule exI)
qed

lemma initial_state_simps [simp]:
  "heap (initial_state h existing) = h"
  "allOperations (initial_state h existing) = []"
  "operationsWithWork (initial_state h existing) = []"
  "existingOperations (initial_state h existing) = existing"
  by (simp_all add: initial_state_def)

text \<open>
  Claim C9. The operation set that construction returns holds every Operation of the set
  passed in (in their places: the returned set is the input set with elements added at its
  end, so nothing was removed) and every Operation created during the pass.
\<close>

theorem C9_returned_superset:
  assumes "createOperations n e h existing = Some st'"
  shows "set existing \<subseteq> set (existingOperations st') \<and>
    (\<exists>zs. existingOperations st' = existing @ zs) \<and>
    (\<forall>i. length h \<le> i \<and> i < length (heap st') \<longrightarrow> i \<in> set (existingOperations st'))"
proof -
  from assms obtain st1 where s: "(step e (length h))\<^sup>*\<^sup>* (initial_state h existing) st1"
    and st': "st' = finalize (st1\<lparr>operationsWithWork :=
        propagate (heap st1) (operationsWithWork st1) 0\<rparr>)"
    by (rule createOperations_decomp)
  have ex: "existingOperations st' = existingOperations st1"
    and len: "length (heap st') = length (heap st1)"
    by (simp_all add: st')
  from steps_existing_prefix [OF s] obtain zs where zs: "existingOperations st1 = existing @ zs"
    by auto
  have "created_existing (length h) (initial_state h existing)"
    by (auto simp: created_existing_def)
  from steps_created_existing [OF s this]
  have c: "created_existing (length h) st1" .
  show ?thesis
    using zs c by (auto simp: ex len created_existing_def)
qed

theorem C9_returned_superset_witness:
  "createOperations 3 env_abc existing_heap [0] \<noteq> None \<and>
   existingOperations (the (createOperations 3 env_abc existing_heap [0])) = [0, 1, 2, 3] \<and>
   set [0] \<subseteq> set (existingOperations (the (createOperations 3 env_abc existing_heap [0])))"
proof -
  have ex: "map_option existingOperations (createOperations 3 env_abc existing_heap [0]) =
      Some [0, 1, 2, 3]"
    by code_simp
  then obtain st' where c: "createOperations 3 env_abc existing_heap [0] = Some st'" by blast
  from C9_returned_superset [OF c] ex show ?thesis by (simp add: c)
qed

subsection \<open>Equations for evaluation\<close>

text \<open>
  The same functions without chains of \<^verbatim>\<open>let\<close>, so that the simplifier evaluates a call on a
  concrete state from the inside out.
\<close>

lemma create_unsharded_code [code]:
  "create_unsharded e ph pr key st =
     (length (heap st),
      \<lparr>heap = heap st @
         [\<lparr>project = pr, phase = ph, shard = None, dependencies = [], consumers = [],
           runner = (if ph \<notin> set (phaseSelection e) \<or> pr \<notin> set (projectSelection e)
                     then Some (NullOperationRunner key Skipped True) else None)\<rparr>],
       allOperations = AList.update key [length (heap st)] (allOperations st),
       operationsWithWork =
         (if ph \<in> set (phaseSelection e) \<and> pr \<in> set (projectSelection e) \<and>
             pr \<in> set (projectsInUnknownState e)
          then set_add (length (heap st)) (operationsWithWork st) else operationsWithWork st),
       existingOperations = set_add (length (heap st)) (existingOperations st)\<rparr>)"
  by (rule prod_eqI) (simp_all add: state.equality)

lemma create_boundaries_code [code]:
  "create_boundaries pr ph st =
     ((length (heap st), Suc (length (heap st))),
      \<lparr>heap = heap st @
         [\<lparr>project = pr, phase = ph, shard = None, dependencies = [], consumers = [],
           runner = Some (BoundaryRunner True False False True ''buildCacheRestore'' '''' Success)\<rparr>,
          \<lparr>project = pr, phase = ph, shard = None, dependencies = [], consumers = [],
           runner = Some (BoundaryRunner True False False True ''buildCacheSave'' '''' Success)\<rparr>],
       allOperations = allOperations st,
       operationsWithWork =
         set_add (Suc (length (heap st))) (set_add (length (heap st)) (operationsWithWork st)),
       existingOperations =
         set_add (length (heap st)) (set_add (Suc (length (heap st))) (existingOperations st))\<rparr>)"
  by (rule prod_eqI) (simp_all add: state.equality)

lemma create_shard_code [code]:
  "create_shard pr ph deps dependents n k (ops, st) =
     (ops @ [length (heap st)],
      fold (\<lambda>d. addDependency d (length (heap st))) dependents
        (fold (addDependency (length (heap st))) deps
           \<lparr>heap = heap st @
              [\<lparr>project = pr, phase = ph, shard = Some (k, n), dependencies = [],
                consumers = [], runner = None\<rparr>],
            allOperations = allOperations st,
            operationsWithWork = set_add (length (heap st)) (operationsWithWork st),
            existingOperations = set_add (length (heap st)) (existingOperations st)\<rparr>))"
proof -
  have e: "snd (create_shard pr ph [] [] n k (ops, st)) =
      \<lparr>heap = heap st @
         [\<lparr>project = pr, phase = ph, shard = Some (k, n), dependencies = [],
           consumers = [], runner = None\<rparr>],
       allOperations = allOperations st,
       operationsWithWork = set_add (length (heap st)) (operationsWithWork st),
       existingOperations = set_add (length (heap st)) (existingOperations st)\<rparr>"
    by (simp add: state.equality)
  show ?thesis by (subst create_shard_decomp) (simp only: e)
qed



lemma unsharded_branch_code [code]:
  "unsharded_branch rec e ph pr key st =
     (case for_of (phase_self e ph) (\<lambda>depPhase. wire rec (length (heap st)) depPhase pr)
             (snd (create_unsharded e ph pr key st)) of
        None \<Rightarrow> None
      | Some st5 \<Rightarrow>
         (case (if phase_upstream e ph \<noteq> [] then
                  (if dependencyProjects e pr \<noteq> [] then
                     for_of (phase_upstream e ph) (\<lambda>depPhase.
                       for_of (dependencyProjects e pr) (\<lambda>dependencyProject.
                         wire rec (length (heap st)) depPhase dependencyProject)) st5
                   else Some st5)
                else Some st5) of
            None \<Rightarrow> None
          | Some st6 \<Rightarrow> Some ([], st6)))"
  by (simp add: unsharded_branch_def split_beta
      cong del: if_weak_cong option.case_cong_weak)

lemma sharded_branch_code [code]:
  "sharded_branch rec e ph pr key n st =
     (case for_of (phase_self e ph) (\<lambda>depPhase. wire rec (length (heap st)) depPhase pr)
             (snd (create_boundaries pr ph st)) of
        None \<Rightarrow> None
      | Some st9 \<Rightarrow>
         (case (if phase_upstream e ph \<noteq> [] then
                  (if dependencyProjects e pr \<noteq> [] then
                     for_of (phase_upstream e ph) (\<lambda>depPhase.
                       for_of (dependencyProjects e pr) (\<lambda>dependencyProject.
                         wire rec (Suc (length (heap st))) depPhase dependencyProject)) st9
                   else Some st9)
                else Some st9) of
            None \<Rightarrow> None
          | Some st10 \<Rightarrow>
             (case fold (create_shard pr ph [length (heap st)] [Suc (length (heap st))] n)
                     (map (\<lambda>index. int index + 1) [0..<nat n])
                     ([length (heap st), Suc (length (heap st))], st10) of
                (operations', st11) \<Rightarrow> Some (operations', memo_set key operations' st11))))"
  by (simp add: sharded_branch_def Let_def split_beta for_of_single
      cong del: if_weak_cong option.case_cong_weak)


lemma wire_code [code]:
  "wire rec target depPhase p st =
     (case rec depPhase p st of
        None \<Rightarrow> None
      | Some r \<Rightarrow> Some (fold (addDependency target) (fst r) (snd r)))"
  by (simp add: wire_def split_beta split: option.splits)

subsection \<open>Out-of-scope Operations\<close>

lemma finalize_in_work_fold:
  "i \<in> set (operationsWithWork st) \<Longrightarrow>
   heap (fold (\<lambda>operation st'. if operation \<notin> set (operationsWithWork st')
       then set_runner operation r st' else st') ops st) ! i = heap st ! i"
proof (induction ops arbitrary: st)
  case Nil
  then show ?case by simp
next
  case (Cons a ops)
  show ?case
  proof (cases "a \<notin> set (operationsWithWork st)")
    case True
    then have ne: "a \<noteq> i" using Cons.prems by auto
    have "i \<in> set (operationsWithWork (set_runner a r st))" using Cons.prems by simp
    from Cons.IH [OF this] True ne show ?thesis by simp
  next
    case False
    with Cons.IH [OF Cons.prems] show ?thesis by simp
  qed
qed

lemma finalize_in_work:
  assumes "i \<in> set (operationsWithWork st)"
  shows "heap (finalize st) ! i = heap st ! i"
proof -
  have "i \<in> set (operationsWithWork s) \<Longrightarrow> heap (fold finalize_entry entries s) ! i = heap s ! i"
    for entries s
  proof (induction entries arbitrary: s)
    case Nil
    then show ?case by simp
  next
    case (Cons a entries)
    have 1: "heap (finalize_entry a s) ! i = heap s ! i"
      using Cons.prems by (simp add: finalize_entry_def split_beta finalize_in_work_fold)
    have "i \<in> set (operationsWithWork (finalize_entry a s))" using Cons.prems by simp
    from Cons.IH [OF this] 1 show ?case by simp
  qed
  then show ?thesis using assms by (simp add: finalize_def)
qed

lemma finalize_keeps_pair:
  "phase (heap (finalize st) ! i) = phase (heap st ! i) \<and>
   project (heap (finalize st) ! i) = project (heap st ! i)"
  by (rule finalize_keeps
      [where P = "\<lambda>x. phase x = phase (heap st ! i) \<and> project x = project (heap st ! i)"])
     simp_all

lemma finalize_keeps_skip:
  "is_skip (runner (heap st ! i)) \<Longrightarrow> is_skip (runner (heap (finalize st) ! i))"
  by (rule finalize_keeps [where P = "\<lambda>x. is_skip (runner x)"]) (simp_all add: is_skip_def)

lemma created_skipped_initial: "created_skipped e (length h) (initial_state h existing)"
  by (auto simp: created_skipped_def)

text \<open>
  Claim C1, as amended. An Operation created during the pass for a pair that is outside the
  requested phase selection or project selection, and whose shard count is undefined or at
  most 1, ends the pass with a skip strategy, whether or not its project is possibly changed.
\<close>

theorem C1_unsharded_out_of_scope_skipped:
  assumes "createOperations n e h existing = Some st'"
    and "length h \<le> i" and "i < length (heap st')"
    and "out_of_scope e (phase (heap st' ! i)) (project (heap st' ! i))"
    and "\<not> is_sharded (getShards e (phase (heap st' ! i)) (project (heap st' ! i)))"
  shows "is_skip (runner (heap st' ! i))"
proof -
  from assms(1) obtain st1 where s: "(step e (length h))\<^sup>*\<^sup>* (initial_state h existing) st1"
    and st': "st' = finalize (st1\<lparr>operationsWithWork :=
        propagate (heap st1) (operationsWithWork st1) 0\<rparr>)"
    by (rule createOperations_decomp)
  let ?st2 = "st1\<lparr>operationsWithWork := propagate (heap st1) (operationsWithWork st1) 0\<rparr>"
  have pp: "phase (heap st' ! i) = phase (heap st1 ! i)"
    "project (heap st' ! i) = project (heap st1 ! i)"
    using finalize_keeps_pair [of ?st2 i] by (simp_all add: st')
  have len: "length (heap st') = length (heap st1)" by (simp add: st')
  have "created_skipped e (length h) st1"
    by (rule steps_created_skipped [OF s created_skipped_initial])
  then have "is_skip (runner (heap ?st2 ! i))"
    using assms(2-5) by (simp add: created_skipped_def pp len is_skip_def)
  then show ?thesis unfolding st' by (rule finalize_keeps_skip)
qed

theorem C1_unsharded_out_of_scope_skipped_witness:
  "createOperations 4 env_skip_b existing_heap [0] \<noteq> None \<and>
   out_of_scope env_skip_b 0 1 \<and> 1 \<in> set (projectsInUnknownState (env_skip_b\<lparr>projectsInUnknownState := [1]\<rparr>)) \<and>
   is_skip (runner (heap (the (createOperations 4 (env_skip_b\<lparr>projectsInUnknownState := [1]\<rparr>) existing_heap [0])) ! 3))"
proof -
  let ?e = "env_skip_b\<lparr>projectsInUnknownState := [1]\<rparr>"
  have a: "createOperations 4 env_skip_b existing_heap [0] \<noteq> None" by code_simp
  have b: "createOperations 4 ?e existing_heap [0] \<noteq> None" by code_simp
  then obtain st' where c: "createOperations 4 ?e existing_heap [0] = Some st'" by blast
  have l: "length (heap (the (createOperations 4 ?e existing_heap [0]))) = 4" by code_simp
  have ph: "phase (heap (the (createOperations 4 ?e existing_heap [0])) ! 3) = 0" by code_simp
  have pr: "project (heap (the (createOperations 4 ?e existing_heap [0])) ! 3) = 1" by code_simp
  have o: "out_of_scope ?e 0 1" by code_simp
  have o': "out_of_scope env_skip_b 0 1" by code_simp
  have u: "\<not> is_sharded (getShards ?e 0 1)" by code_simp
  have "is_skip (runner (heap st' ! 3))"
    by (rule C1_unsharded_out_of_scope_skipped [OF c])
       (use l ph pr o u c in \<open>simp_all add: existing_heap_def\<close>)
  then show ?thesis using a o' c by simp
qed

text \<open>
  The claim as stated also covers the pairs with a shard count above 1. There it fails:
  in \<open>env_sharded_a\<close> the project \<^verbatim>\<open>a\<close> is not selected, its \<^verbatim>\<open>build\<close> has two shards, and the
  four Operations created for it end with a boundary runner or with no runner at all.
\<close>

theorem C1_sharded_counterexample:
  "createOperations 4 env_sharded_a [] [] \<noteq> None \<and>
   out_of_scope env_sharded_a 0 0 \<and>
   getShards env_sharded_a 0 0 = Some 2 \<and>
   phase (heap (the (createOperations 4 env_sharded_a [] [])) ! 1) = 0 \<and>
   project (heap (the (createOperations 4 env_sharded_a [] [])) ! 1) = 0 \<and>
   \<not> is_skip (runner (heap (the (createOperations 4 env_sharded_a [] [])) ! 1)) \<and>
   \<not> is_skip (runner (heap (the (createOperations 4 env_sharded_a [] [])) ! 3))"
  by code_simp

text \<open>
  Claim C10. An Operation created for an unsharded pair out of scope gets its skip runner at
  creation (line 180). When dirty propagation has put it into the work-tracking set, the
  finalization passes it by, and the runner it ends with is the very runner of its creation,
  named by its own key; in every case the runner it ends with reports \<^verbatim>\<open>Skipped\<close>.
\<close>

theorem C10_out_of_scope_keeps_skip:
  assumes "createOperations n e h existing = Some st'"
    and "length h \<le> i" and "i < length (heap st')"
    and "out_of_scope e (phase (heap st' ! i)) (project (heap st' ! i))"
    and "\<not> is_sharded (getShards e (phase (heap st' ! i)) (project (heap st' ! i)))"
  shows "is_skip (runner (heap st' ! i)) \<and>
    (i \<in> set (operationsWithWork st') \<longrightarrow>
       runner (heap st' ! i) =
         Some (NullOperationRunner
           (getOperationKey e (phase (heap st' ! i)) (project (heap st' ! i))) Skipped True))"
proof -
  from assms(1) obtain st1 where s: "(step e (length h))\<^sup>*\<^sup>* (initial_state h existing) st1"
    and st': "st' = finalize (st1\<lparr>operationsWithWork :=
        propagate (heap st1) (operationsWithWork st1) 0\<rparr>)"
    by (rule createOperations_decomp)
  let ?st2 = "st1\<lparr>operationsWithWork := propagate (heap st1) (operationsWithWork st1) 0\<rparr>"
  let ?r = "Some (NullOperationRunner
      (getOperationKey e (phase (heap st' ! i)) (project (heap st' ! i))) Skipped True)"
  have pp: "phase (heap st' ! i) = phase (heap st1 ! i)"
    "project (heap st' ! i) = project (heap st1 ! i)"
    using finalize_keeps_pair [of ?st2 i] by (simp_all add: st')
  have len: "length (heap st') = length (heap st1)" by (simp add: st')
  have "created_skipped e (length h) st1"
    by (rule steps_created_skipped [OF s created_skipped_initial])
  then have r2: "runner (heap ?st2 ! i) = ?r"
    using assms(2-5) by (simp add: created_skipped_def pp len)
  then have "is_skip (runner (heap ?st2 ! i))" by (simp add: is_skip_def)
  then have a: "is_skip (runner (heap st' ! i))" unfolding st' by (rule finalize_keeps_skip)
  have b: "runner (heap st' ! i) = ?r" if "i \<in> set (operationsWithWork st')"
  proof -
    from that have "i \<in> set (operationsWithWork ?st2)" by (simp add: st')
    then have "heap st' ! i = heap ?st2 ! i" unfolding st' by (rule finalize_in_work)
    then show ?thesis using r2 by simp
  qed
  from a b show ?thesis by blast
qed

theorem C10_out_of_scope_keeps_skip_witness:
  "createOperations 3 env_skip_b existing_heap [0] \<noteq> None \<and>
   out_of_scope env_skip_b 0 1 \<and>
   3 \<in> set (operationsWithWork (the (createOperations 3 env_skip_b existing_heap [0]))) \<and>
   runner (heap (the (createOperations 3 env_skip_b existing_heap [0])) ! 3) =
     Some (NullOperationRunner ''b;build'' Skipped True)"
proof -
  have a: "createOperations 3 env_skip_b existing_heap [0] \<noteq> None" by code_simp
  then obtain st' where c: "createOperations 3 env_skip_b existing_heap [0] = Some st'" by blast
  have l: "length (heap (the (createOperations 3 env_skip_b existing_heap [0]))) = 4" by code_simp
  have ph: "phase (heap (the (createOperations 3 env_skip_b existing_heap [0])) ! 3) = 0"
    by code_simp
  have pr: "project (heap (the (createOperations 3 env_skip_b existing_heap [0])) ! 3) = 1"
    by code_simp
  have w: "3 \<in> set (operationsWithWork (the (createOperations 3 env_skip_b existing_heap [0])))"
    by code_simp
  have o: "out_of_scope env_skip_b 0 1" by code_simp
  have u: "\<not> is_sharded (getShards env_skip_b 0 1)" by code_simp
  have k: "getOperationKey env_skip_b 0 1 = ''b;build''" by code_simp
  have "is_skip (runner (heap st' ! 3)) \<and>
    (3 \<in> set (operationsWithWork st') \<longrightarrow>
       runner (heap st' ! 3) =
         Some (NullOperationRunner
           (getOperationKey env_skip_b (phase (heap st' ! 3)) (project (heap st' ! 3)))
           Skipped True))"
    by (rule C10_out_of_scope_keeps_skip [OF c])
       (use l ph pr o u c in \<open>simp_all add: existing_heap_def\<close>)
  then show ?thesis using a o w c ph pr k by simp
qed

subsection \<open>Dependency edges\<close>

lemma pass_edges_refl: "pass_edges h h"
  by (auto simp: pass_edges_def)

lemma pass_edges_append:
  assumes pe: "pass_edges h h'" and d: "dependencies x = []" and c: "consumers x = []"
  shows "pass_edges h (h' @ [x])"
proof -
  from pe have len: "length h \<le> length h'"
    and old: "\<And>i. i < length h \<Longrightarrow>
      dependencies (h' ! i) = dependencies (h ! i) \<and> consumers (h' ! i) = consumers (h ! i)"
    and refs: "\<And>a b. length h \<le> a \<Longrightarrow> a < length h' \<Longrightarrow>
      b \<in> set (dependencies (h' ! a)) \<union> set (consumers (h' ! a)) \<Longrightarrow>
      length h \<le> b \<and> b < length h'"
    and sym: "\<And>a b. length h \<le> a \<Longrightarrow> a < length h' \<Longrightarrow> length h \<le> b \<Longrightarrow> b < length h' \<Longrightarrow>
      b \<in> set (dependencies (h' ! a)) \<longleftrightarrow> a \<in> set (consumers (h' ! b))"
    unfolding pass_edges_def by blast+
  have 1: "dependencies ((h' @ [x]) ! i) = dependencies (h ! i) \<and>
      consumers ((h' @ [x]) ! i) = consumers (h ! i)" if "i < length h" for i
    using old [OF that] that len by (simp add: nth_append)
  have 2: "length h \<le> b \<and> b < length (h' @ [x])"
    if "length h \<le> a" "a < length (h' @ [x])"
      "b \<in> set (dependencies ((h' @ [x]) ! a)) \<union> set (consumers ((h' @ [x]) ! a))" for a b
  proof (cases "a < length h'")
    case True
    then have "b \<in> set (dependencies (h' ! a)) \<union> set (consumers (h' ! a))"
      using that(3) by (simp add: nth_append)
    from refs [OF that(1) True this] show ?thesis by simp
  next
    case False
    then have "a = length h'" using that(2) by simp
    then show ?thesis using that(3) d c by simp
  qed
  have 3: "b \<in> set (dependencies ((h' @ [x]) ! a)) \<longleftrightarrow> a \<in> set (consumers ((h' @ [x]) ! b))"
    if "length h \<le> a" "a < length (h' @ [x])" "length h \<le> b" "b < length (h' @ [x])" for a b
  proof -
    note t = that
    consider "a < length h'" "b < length h'" | "a = length h'" | "a < length h'" "b = length h'"
      using t(2,4) by (auto simp: less_Suc_eq)
    then show ?thesis
    proof cases
      case 1
      then show ?thesis using sym [OF that(1) 1(1) that(3) 1(2)] by (simp add: nth_append)
    next
      case 2
      have "a \<notin> set (consumers ((h' @ [x]) ! b))"
      proof (cases "b < length h'")
        case True
        then show ?thesis using refs [OF that(3) True, of a] 2 by (auto simp: nth_append)
      next
        case False
        then have "b = length h'" using that(4) by simp
        then show ?thesis using c by simp
      qed
      then show ?thesis using 2 d by simp
    next
      case 3
      have "b \<notin> set (dependencies (h' ! a))" using refs [OF that(1) 3(1), of b] 3 by auto
      then show ?thesis using 3 c by (simp add: nth_append)
    qed
  qed
  show ?thesis
    unfolding pass_edges_def
  proof (intro conjI allI impI ballI)
    show "length h \<le> length (h' @ [x])" using len by simp
  next
    fix i assume "i < length h"
    then show "dependencies ((h' @ [x]) ! i) = dependencies (h ! i)"
      and "consumers ((h' @ [x]) ! i) = consumers (h ! i)" using 1 by simp_all
  next
    fix a b assume "length h \<le> a \<and> a < length (h' @ [x])"
      and "b \<in> set (dependencies ((h' @ [x]) ! a)) \<union> set (consumers ((h' @ [x]) ! a))"
    then show "length h \<le> b" and "b < length (h' @ [x])" using 2 [of a b] by simp_all
  next
    fix a b
    assume "length h \<le> a \<and> a < length (h' @ [x]) \<and> length h \<le> b \<and> b < length (h' @ [x])"
    then show "b \<in> set (dependencies ((h' @ [x]) ! a)) \<longleftrightarrow>
        a \<in> set (consumers ((h' @ [x]) ! b))"
      using 3 [of a b] by simp
  qed
qed

lemma pass_edges_addDependency:
  assumes pe: "pass_edges h (heap st)"
    and a: "length h \<le> a" "a < length (heap st)" and b: "length h \<le> b" "b < length (heap st)"
  shows "pass_edges h (heap (addDependency a b st))"
proof -
  let ?h = "heap st" and ?h' = "heap (addDependency a b st)"
  from pe have len: "length h \<le> length ?h"
    and old: "\<And>i. i < length h \<Longrightarrow>
      dependencies (?h ! i) = dependencies (h ! i) \<and> consumers (?h ! i) = consumers (h ! i)"
    and refs: "\<And>x y. length h \<le> x \<Longrightarrow> x < length ?h \<Longrightarrow>
      y \<in> set (dependencies (?h ! x)) \<union> set (consumers (?h ! x)) \<Longrightarrow>
      length h \<le> y \<and> y < length ?h"
    and sym: "\<And>x y. length h \<le> x \<Longrightarrow> x < length ?h \<Longrightarrow> length h \<le> y \<Longrightarrow> y < length ?h \<Longrightarrow>
      y \<in> set (dependencies (?h ! x)) \<longleftrightarrow> x \<in> set (consumers (?h ! y))"
    unfolding pass_edges_def by blast+
  have 1: "dependencies (?h' ! i) = dependencies (h ! i) \<and>
      consumers (?h' ! i) = consumers (h ! i)" if "i < length h" for i
  proof -
    have i: "i < length ?h" using that len by simp
    have "i \<noteq> a" "i \<noteq> b" using that a(1) b(1) by simp_all
    then show ?thesis using old [OF that] by (simp add: addDependency_nth [OF i])
  qed
  have 2: "length h \<le> y \<and> y < length ?h'"
    if "length h \<le> x" "x < length ?h'"
      "y \<in> set (dependencies (?h' ! x)) \<union> set (consumers (?h' ! x))" for x y
  proof -
    have x: "x < length ?h" using that(2) by simp
    from that(3) have "y = a \<or> y = b \<or>
        y \<in> set (dependencies (?h ! x)) \<union> set (consumers (?h ! x))"
      by (auto simp: addDependency_nth [OF x] split: if_splits)
    then show ?thesis using a b refs [OF that(1) x] by auto
  qed
  have 3: "y \<in> set (dependencies (?h' ! x)) \<longleftrightarrow> x \<in> set (consumers (?h' ! y))"
    if "length h \<le> x" "x < length ?h'" "length h \<le> y" "y < length ?h'" for x y
  proof -
    have x: "x < length ?h" and y: "y < length ?h" using that(2,4) by simp_all
    show ?thesis
      using sym [OF that(1) x that(3) y] by (auto simp: addDependency_nth x y)
  qed
  show ?thesis
    unfolding pass_edges_def
  proof (intro conjI allI impI ballI)
    show "length h \<le> length ?h'" using len by simp
  next
    fix i assume "i < length h"
    then show "dependencies (?h' ! i) = dependencies (h ! i)"
      and "consumers (?h' ! i) = consumers (h ! i)" using 1 by simp_all
  next
    fix x y assume "length h \<le> x \<and> x < length ?h'"
      and "y \<in> set (dependencies (?h' ! x)) \<union> set (consumers (?h' ! x))"
    then show "length h \<le> y" and "y < length ?h'" using 2 [of x y] by simp_all
  next
    fix x y
    assume "length h \<le> x \<and> x < length ?h' \<and> length h \<le> y \<and> y < length ?h'"
    then show "y \<in> set (dependencies (?h' ! x)) \<longleftrightarrow> x \<in> set (consumers (?h' ! y))"
      using 3 [of x y] by simp
  qed
qed

lemma step_pass_edges:
  "step e (length h) st st' \<Longrightarrow> pass_edges h (heap st) \<Longrightarrow> pass_edges h (heap st')"
proof (induction rule: step.induct)
  case (Unsharded st ph pr)
  then show ?case by (simp add: pass_edges_append)
next
  case (Boundaries ph pr st)
  let ?r = "\<lparr>project = pr, phase = ph, shard = None, dependencies = [], consumers = [],
      runner = Some (BoundaryRunner True False False True ''buildCacheRestore'' '''' Success)\<rparr>"
  let ?s = "\<lparr>project = pr, phase = ph, shard = None, dependencies = [], consumers = [],
      runner = Some (BoundaryRunner True False False True ''buildCacheSave'' '''' Success)\<rparr>"
  have 1: "pass_edges h (heap st @ [?r])"
    by (rule pass_edges_append [OF Boundaries.prems]) simp_all
  have "pass_edges h ((heap st @ [?r]) @ [?s])"
    by (rule pass_edges_append [OF 1]) simp_all
  then show ?case by simp
next
  case (Edge a st b)
  then show ?case by (simp add: pass_edges_addDependency)
next
  case (Shard ph pr st n k ops)
  then show ?case by (simp add: pass_edges_append)
next
  case (Memo ph pr ops st)
  then show ?case by simp
qed

lemma steps_pass_edges:
  "(step e (length h))\<^sup>*\<^sup>* st st' \<Longrightarrow> pass_edges h (heap st) \<Longrightarrow> pass_edges h (heap st')"
proof (induction rule: rtranclp_induct)
  case base
  then show ?case .
next
  case (step y z)
  have "pass_edges h (heap y)" by (rule step.IH [OF step.prems])
  with step.hyps(2) show ?case by (rule step_pass_edges)
qed

lemma finalize_keeps_edges:
  "dependencies (heap (finalize st) ! i) = dependencies (heap st ! i) \<and>
   consumers (heap (finalize st) ! i) = consumers (heap st ! i)"
  by (rule finalize_keeps
      [where P = "\<lambda>x. dependencies x = dependencies (heap st ! i) \<and>
                       consumers x = consumers (heap st ! i)"])
     simp_all

lemma addDependency_heap: "addDependency a b st = st\<lparr>heap := heap (addDependency a b st)\<rparr>"
  by (simp add: addDependency_def Let_def)

lemma addDependency_idem: "addDependency a b (addDependency a b st) = addDependency a b st"
proof -
  let ?s1 = "addDependency a b st"
  have "heap (addDependency a b ?s1) = heap ?s1"
  proof (rule nth_equalityI)
    show "length (heap (addDependency a b ?s1)) = length (heap ?s1)" by simp
  next
    fix i assume "i < length (heap (addDependency a b ?s1))"
    then have i: "i < length (heap st)" and i1: "i < length (heap ?s1)" by simp_all
    show "heap (addDependency a b ?s1) ! i = heap ?s1 ! i"
      using i i1 by (intro Operation.equality) (auto simp: addDependency_nth set_add_idem)
  qed
  then have "addDependency a b ?s1 = ?s1\<lparr>heap := heap ?s1\<rparr>"
    using addDependency_heap [of a b ?s1] by simp
  then show ?thesis by simp
qed

text \<open>
  Claim C8. \<^verbatim>\<open>a.addDependency(b)\<close> puts \<open>b\<close> into the dependency set of \<open>a\<close> and \<open>a\<close> into the
  consumer set of \<open>b\<close> and changes no other set; doing it twice is doing it once. The pass
  writes the consumer sets through \<^verbatim>\<open>addDependency\<close> only: when construction returns, the
  Operations that were passed in have the dependency and consumer sets they had, the sets
  of the Operations created hold Operations created, and among these \<open>b\<close> is a dependency
  of \<open>a\<close> exactly when \<open>a\<close> is a consumer of \<open>b\<close>.
\<close>

theorem C8_addDependency_symmetric:
  "(a < length (heap st) \<and> b < length (heap st) \<longrightarrow>
      set (dependencies (heap (addDependency a b st) ! a)) =
        insert b (set (dependencies (heap st ! a))) \<and>
      set (consumers (heap (addDependency a b st) ! b)) =
        insert a (set (consumers (heap st ! b))) \<and>
      (\<forall>i < length (heap st).
         (i \<noteq> a \<longrightarrow> dependencies (heap (addDependency a b st) ! i) = dependencies (heap st ! i)) \<and>
         (i \<noteq> b \<longrightarrow> consumers (heap (addDependency a b st) ! i) = consumers (heap st ! i)))) \<and>
   addDependency a b (addDependency a b st) = addDependency a b st \<and>
   (createOperations n e h existing = Some st' \<longrightarrow> pass_edges h (heap st'))"
proof (intro conjI impI)
  assume v: "a < length (heap st) \<and> b < length (heap st)"
  then show "set (dependencies (heap (addDependency a b st) ! a)) =
      insert b (set (dependencies (heap st ! a)))"
    and "set (consumers (heap (addDependency a b st) ! b)) =
      insert a (set (consumers (heap st ! b)))"
    by (simp_all add: addDependency_nth)
  show "\<forall>i < length (heap st).
      (i \<noteq> a \<longrightarrow> dependencies (heap (addDependency a b st) ! i) = dependencies (heap st ! i)) \<and>
      (i \<noteq> b \<longrightarrow> consumers (heap (addDependency a b st) ! i) = consumers (heap st ! i))"
    by (simp add: addDependency_nth)
next
  show "addDependency a b (addDependency a b st) = addDependency a b st"
    by (rule addDependency_idem)
next
  assume co: "createOperations n e h existing = Some st'"
  from co obtain st1 where s: "(step e (length h))\<^sup>*\<^sup>* (initial_state h existing) st1"
    and st': "st' = finalize (st1\<lparr>operationsWithWork :=
        propagate (heap st1) (operationsWithWork st1) 0\<rparr>)"
    by (rule createOperations_decomp)
  let ?st2 = "st1\<lparr>operationsWithWork := propagate (heap st1) (operationsWithWork st1) 0\<rparr>"
  have "pass_edges h (heap (initial_state h existing))" by (simp add: pass_edges_refl)
  with s have 1: "pass_edges h (heap st1)" by (rule steps_pass_edges)
  have len: "length (heap st') = length (heap st1)" by (simp add: st')
  have d: "dependencies (heap st' ! i) = dependencies (heap st1 ! i)"
    and c: "consumers (heap st' ! i) = consumers (heap st1 ! i)" for i
    using finalize_keeps_edges [of ?st2 i] by (simp_all add: st')
  show "pass_edges h (heap st')"
    using 1 unfolding pass_edges_def len d c .
qed

theorem C8_addDependency_symmetric_witness:
  "set (dependencies (heap (addDependency 2 0 (initial_state chain_heap [])) ! 2)) =
     insert 0 (set (dependencies (heap (initial_state chain_heap []) ! 2))) \<and>
   createOperations 3 env_abc chain_heap [0, 1, 2] \<noteq> None \<and>
   pass_edges chain_heap (heap (the (createOperations 3 env_abc chain_heap [0, 1, 2])))"
proof -
  have l: "(2::nat) < length (heap (initial_state chain_heap [])) \<and>
      (0::nat) < length (heap (initial_state chain_heap []))"
    by (simp add: chain_heap_def)
  have a: "createOperations 3 env_abc chain_heap [0, 1, 2] \<noteq> None" by code_simp
  then obtain st' where c: "createOperations 3 env_abc chain_heap [0, 1, 2] = Some st'" by blast
  note t = C8_addDependency_symmetric
    [of 2 "initial_state chain_heap []" 0 3 env_abc chain_heap "[0, 1, 2]" st']
  have 1: "set (dependencies (heap (addDependency 2 0 (initial_state chain_heap [])) ! 2)) =
      insert 0 (set (dependencies (heap (initial_state chain_heap []) ! 2)))"
    using t [THEN conjunct1] l by blast
  have "pass_edges chain_heap (heap st')"
    using t [THEN conjunct2, THEN conjunct2] c by (rule mp)
  then have 2: "pass_edges chain_heap (heap (the (createOperations 3 env_abc chain_heap [0, 1, 2])))"
    by (simp only: c option.sel)
  from 1 a 2 show ?thesis by blast
qed

subsection \<open>Runners at the end of the pass\<close>














text \<open>
  The proviso on the keys is needed. In \<open>env_same_name\<close> two projects have one package name.
  The sharded pair writes its memo entry at line 171, after the unsharded pair of its
  dependency has written an entry under the same key at line 189; the finalization of
  lines 60-72 then never meets the unsharded Operation, which has no work and no runner.
\<close>

lemma same_name_example:
  "getOperationKey env_same_name 0 0 = getOperationKey env_same_name 0 1 \<and>
   createOperations 3 env_same_name [] [] \<noteq> None \<and>
   project (heap (the (createOperations 3 env_same_name [] [])) ! 2) = 1 \<and>
   2 \<notin> set (operationsWithWork (the (createOperations 3 env_same_name [] []))) \<and>
   runner (heap (the (createOperations 3 env_same_name [] [])) ! 2) = None"
proof -
  have 1: "getOperationKey env_same_name 0 0 = getOperationKey env_same_name 0 1" by code_simp
  have 2: "createOperations 3 env_same_name [] [] \<noteq> None" by code_simp
  have 3: "project (heap (the (createOperations 3 env_same_name [] [])) ! 2) = 1" by code_simp
  have 4: "2 \<notin> set (operationsWithWork (the (createOperations 3 env_same_name [] [])))"
    by code_simp
  have 5: "runner (heap (the (createOperations 3 env_same_name [] [])) ! 2) = None" by code_simp
  from 1 2 3 4 5 show ?thesis by blast
qed

subsection \<open>The memo entry of a pair\<close>

lemma for_of_inv:
  "(\<And>x s s'. Q s \<Longrightarrow> body x s = Some s' \<Longrightarrow> Q s') \<Longrightarrow> Q s \<Longrightarrow>
   for_of xs body s = Some s' \<Longrightarrow> Q s'"
proof (induction xs arbitrary: s)
  case Nil
  then show ?case by simp
next
  case (Cons x xs)
  from Cons.prems(3) obtain s1 where b: "body x s = Some s1" and r: "for_of xs body s1 = Some s'"
    by (auto split: option.splits)
  have q1: "Q s1" using Cons.prems(1) [OF Cons.prems(2) b] .
  show ?case
  proof (rule Cons.IH [OF _ q1 r])
    fix y t t' assume "Q t" "body y t = Some t'"
    then show "Q t'" by (rule Cons.prems(1))
  qed
qed

lemma wire_keeps_entry:
  assumes "keeps_entry k v rec" and "map_of (allOperations st) k = Some v"
    and "wire rec target dp p st = Some st'"
  shows "map_of (allOperations st') k = Some v"
proof -
  from assms(3) obtain r st1 where r: "rec dp p st = Some (r, st1)"
    and st': "st' = fold (addDependency target) r st1"
    by (auto simp: wire_def split: option.splits)
  from assms(1,2) r have "map_of (allOperations st1) k = Some v"
    unfolding keeps_entry_def by blast
  then show ?thesis by (simp add: st')
qed

lemma wire_self_keeps_entry:
  assumes rec: "keeps_entry k v rec" and q: "map_of (allOperations st) k = Some v"
    and w: "for_of dps (\<lambda>dp. wire rec target dp p) st = Some st'"
  shows "map_of (allOperations st') k = Some v"
proof (rule for_of_inv [where Q = "\<lambda>s. map_of (allOperations s) k = Some v", OF _ q w])
  fix x s s' assume "map_of (allOperations s) k = Some v" "wire rec target x p s = Some s'"
  then show "map_of (allOperations s') k = Some v" by (rule wire_keeps_entry [OF rec])
qed

lemma wire_loop_keeps_entry:
  assumes rec: "keeps_entry k v rec" and q: "map_of (allOperations st) k = Some v"
    and w: "for_of ps (\<lambda>p. wire rec target dp p) st = Some st'"
  shows "map_of (allOperations st') k = Some v"
proof (rule for_of_inv [where Q = "\<lambda>s. map_of (allOperations s) k = Some v", OF _ q w])
  fix x s s' assume "map_of (allOperations s) k = Some v" "wire rec target dp x s = Some s'"
  then show "map_of (allOperations s') k = Some v" by (rule wire_keeps_entry [OF rec])
qed

lemma wire_upstream_keeps_entry:
  assumes rec: "keeps_entry k v rec" and q: "map_of (allOperations st) k = Some v"
    and w: "for_of dps (\<lambda>dp. for_of ps (\<lambda>p. wire rec target dp p)) st = Some st'"
  shows "map_of (allOperations st') k = Some v"
proof (rule for_of_inv [where Q = "\<lambda>s. map_of (allOperations s) k = Some v", OF _ q w])
  fix x s s'
  assume "map_of (allOperations s) k = Some v" "for_of ps (\<lambda>p. wire rec target x p) s = Some s'"
  then show "map_of (allOperations s') k = Some v" by (rule wire_loop_keeps_entry [OF rec])
qed

lemma shards_loop_result:
  "fold (create_shard pr ph deps dependents n) ks (ops, st) = (ops', st') \<Longrightarrow>
   length ops' = length ops + length ks \<and> allOperations st' = allOperations st \<and>
   (\<exists>zs. ops' = ops @ zs)"
proof (induction ks arbitrary: ops st)
  case Nil
  then show ?case by simp
next
  case (Cons k ks)
  let ?i = "length (heap st)"
  let ?c = "create_shard pr ph deps dependents n k (ops, st)"
  have f: "fst ?c = ops @ [?i]" by (subst create_shard_decomp) simp
  have m: "allOperations (snd ?c) = allOperations st" by (subst create_shard_decomp) simp
  have "fold (create_shard pr ph deps dependents n) ks (ops @ [?i], snd ?c) = (ops', st')"
    using Cons.prems by (simp add: f [symmetric])
  from Cons.IH [OF this] show ?case using m by auto
qed

lemma unsharded_branch_SomeD:
  assumes "unsharded_branch rec e ph pr key st = Some (r, st')"
  obtains st5 where
    "for_of (phase_self e ph) (\<lambda>depPhase. wire rec (length (heap st)) depPhase pr)
       (snd (create_unsharded e ph pr key st)) = Some st5"
    and "(phase_upstream e ph \<noteq> [] \<and> dependencyProjects e pr \<noteq> [] \<and>
          for_of (phase_upstream e ph) (\<lambda>depPhase.
            for_of (dependencyProjects e pr) (\<lambda>dependencyProject.
              wire rec (length (heap st)) depPhase dependencyProject)) st5 = Some st') \<or>
         st' = st5"
    and "r = []"
  using assms unfolding unsharded_branch_code
  by (auto split: option.splits if_splits)

lemma sharded_branch_SomeD:
  assumes "sharded_branch rec e ph pr key n st = Some (r, st')"
  obtains st9 st10 st11 where
    "for_of (phase_self e ph) (\<lambda>depPhase. wire rec (length (heap st)) depPhase pr)
       (snd (create_boundaries pr ph st)) = Some st9"
    and "(phase_upstream e ph \<noteq> [] \<and> dependencyProjects e pr \<noteq> [] \<and>
          for_of (phase_upstream e ph) (\<lambda>depPhase.
            for_of (dependencyProjects e pr) (\<lambda>dependencyProject.
              wire rec (Suc (length (heap st))) depPhase dependencyProject)) st9 = Some st10) \<or>
         st10 = st9"
    and "fold (create_shard pr ph [length (heap st)] [Suc (length (heap st))] n)
           (map (\<lambda>index. int index + 1) [0..<nat n])
           ([length (heap st), Suc (length (heap st))], st10) = (r, st11)"
    and "st' = memo_set key r st11"
  using assms unfolding sharded_branch_code
  by (auto split: option.splits if_splits prod.splits)

lemma unsharded_branch_keeps_entry:
  assumes rec: "keeps_entry k v rec" and q: "map_of (allOperations st) k = Some v"
    and ne: "key \<noteq> k"
    and ub: "unsharded_branch rec e ph pr key st = Some (r, st')"
  shows "map_of (allOperations st') k = Some v"
proof -
  let ?st4 = "snd (create_unsharded e ph pr key st)"
  from ub obtain st5 where
    l1: "for_of (phase_self e ph) (\<lambda>depPhase. wire rec (length (heap st)) depPhase pr) ?st4 = Some st5"
    and l2: "(phase_upstream e ph \<noteq> [] \<and> dependencyProjects e pr \<noteq> [] \<and>
          for_of (phase_upstream e ph) (\<lambda>depPhase.
            for_of (dependencyProjects e pr) (\<lambda>dependencyProject.
              wire rec (length (heap st)) depPhase dependencyProject)) st5 = Some st') \<or>
         st' = st5"
    by (rule unsharded_branch_SomeD)
  have q4: "map_of (allOperations ?st4) k = Some v" using q ne by (simp add: update_conv')
  have q5: "map_of (allOperations st5) k = Some v" by (rule wire_self_keeps_entry [OF rec q4 l1])
  from l2 show ?thesis
  proof
    assume "phase_upstream e ph \<noteq> [] \<and> dependencyProjects e pr \<noteq> [] \<and>
          for_of (phase_upstream e ph) (\<lambda>depPhase.
            for_of (dependencyProjects e pr) (\<lambda>dependencyProject.
              wire rec (length (heap st)) depPhase dependencyProject)) st5 = Some st'"
    then show ?thesis using wire_upstream_keeps_entry [OF rec q5] by blast
  next
    assume "st' = st5"
    then show ?thesis using q5 by simp
  qed
qed

lemma sharded_branch_keeps_entry:
  assumes rec: "keeps_entry k v rec" and q: "map_of (allOperations st) k = Some v"
    and ne: "key \<noteq> k"
    and sb: "sharded_branch rec e ph pr key n st = Some (r, st')"
  shows "map_of (allOperations st') k = Some v"
proof -
  let ?st8 = "snd (create_boundaries pr ph st)"
  from sb obtain st9 st10 st11 where
    l1: "for_of (phase_self e ph) (\<lambda>depPhase. wire rec (length (heap st)) depPhase pr) ?st8 = Some st9"
    and l2: "(phase_upstream e ph \<noteq> [] \<and> dependencyProjects e pr \<noteq> [] \<and>
          for_of (phase_upstream e ph) (\<lambda>depPhase.
            for_of (dependencyProjects e pr) (\<lambda>dependencyProject.
              wire rec (Suc (length (heap st))) depPhase dependencyProject)) st9 = Some st10) \<or>
         st10 = st9"
    and l3: "fold (create_shard pr ph [length (heap st)] [Suc (length (heap st))] n)
           (map (\<lambda>index. int index + 1) [0..<nat n])
           ([length (heap st), Suc (length (heap st))], st10) = (r, st11)"
    and st': "st' = memo_set key r st11"
    by (rule sharded_branch_SomeD)
  have q8: "map_of (allOperations ?st8) k = Some v" using q by simp
  have q9: "map_of (allOperations st9) k = Some v" by (rule wire_self_keeps_entry [OF rec q8 l1])
  have q10: "map_of (allOperations st10) k = Some v"
    using l2 wire_upstream_keeps_entry [OF rec q9] q9 by blast
  have "allOperations st11 = allOperations st10" using shards_loop_result [OF l3] by simp
  then show ?thesis using q10 ne by (simp add: st' update_conv')
qed

lemma getOrCreateOperations_keeps_entry: "keeps_entry k v (getOrCreateOperations n e)"
proof (induction n)
  case 0
  show ?case by (simp add: keeps_entry_def)
next
  case (Suc n)
  show ?case unfolding keeps_entry_def
  proof (intro allI impI)
    fix ph pr st r st'
    assume q: "map_of (allOperations st) k = Some v"
      and g: "getOrCreateOperations (Suc n) e ph pr st = Some (r, st')"
    let ?key = "getOperationKey e ph pr"
    show "map_of (allOperations st') k = Some v"
    proof (cases "map_of (allOperations st) ?key")
      case (Some ops)
      then have "st' = st" using g by simp
      then show ?thesis using q by simp
    next
      case None
      then have ne: "?key \<noteq> k" using q by auto
      show ?thesis
      proof (cases "is_sharded (getShards e ph pr)")
        case True
        then have "sharded_branch (getOrCreateOperations n e) e ph pr ?key
            (the (getShards e ph pr)) st = Some (r, st')"
          using g None by simp
        then show ?thesis by (rule sharded_branch_keeps_entry [OF Suc q ne])
      next
        case False
        then have "unsharded_branch (getOrCreateOperations n e) e ph pr ?key st = Some (r, st')"
          using g None by simp
        then show ?thesis by (rule unsharded_branch_keeps_entry [OF Suc q ne])
      qed
    qed
  qed
qed

lemma unsharded_branch_entry:
  assumes rec: "keeps_entry key [length (heap st)] rec"
    and ub: "unsharded_branch rec e ph pr key st = Some (r, st')"
  shows "map_of (allOperations st') key = Some [length (heap st)]"
proof -
  let ?st4 = "snd (create_unsharded e ph pr key st)"
  let ?v = "[length (heap st)]"
  from ub obtain st5 where
    l1: "for_of (phase_self e ph) (\<lambda>depPhase. wire rec (length (heap st)) depPhase pr) ?st4 = Some st5"
    and l2: "(phase_upstream e ph \<noteq> [] \<and> dependencyProjects e pr \<noteq> [] \<and>
          for_of (phase_upstream e ph) (\<lambda>depPhase.
            for_of (dependencyProjects e pr) (\<lambda>dependencyProject.
              wire rec (length (heap st)) depPhase dependencyProject)) st5 = Some st') \<or>
         st' = st5"
    by (rule unsharded_branch_SomeD)
  have q4: "map_of (allOperations ?st4) key = Some ?v" by (simp add: update_conv')
  have q5: "map_of (allOperations st5) key = Some ?v" by (rule wire_self_keeps_entry [OF rec q4 l1])
  from l2 show ?thesis
    using wire_upstream_keeps_entry [OF rec q5] q5 by blast
qed

lemma sharded_branch_entry:
  assumes sb: "sharded_branch rec e ph pr key n st = Some (r, st')"
  shows "map_of (allOperations st') key = Some r \<and> length r = nat n + 2"
proof -
  from sb obtain st10 st11 where
    l3: "fold (create_shard pr ph [length (heap st)] [Suc (length (heap st))] n)
           (map (\<lambda>index. int index + 1) [0..<nat n])
           ([length (heap st), Suc (length (heap st))], st10) = (r, st11)"
    and st': "st' = memo_set key r st11"
    by (rule sharded_branch_SomeD)
  have "length r = nat n + 2" using shards_loop_result [OF l3] by simp
  then show ?thesis by (simp add: st' update_conv')
qed

lemma getShards_undefined:
  "(tryLoadForProjectAsync e pr = None \<longrightarrow> getShards e ph pr = None) \<and>
   (\<forall>c. tryLoadForProjectAsync e pr = Some c \<and>
        operationSettingsByOperationName c (phase_name e ph) = None \<longrightarrow>
        getShards e ph pr = None)"
  by (simp add: getShards_def)

lemma is_sharded_iff: "is_sharded s \<longleftrightarrow> (\<exists>N. s = Some N \<and> 1 < N)"
  by (cases s) (auto simp: is_sharded_def)

text \<open>
  Claim C7. For a pair that is not in the memo, resolution runs the unsharded branch of
  lines 172-212 exactly when the shard count looked up is undefined or at most 1, and the
  sharded branch of lines 88-171 otherwise. What a returning call leaves in the memo shows
  which one ran: the entry of the pair is the single Operation created for it exactly when
  the count is undefined or at most 1. The lookup is undefined when no project
  configuration can be loaded and when the configuration has no settings under the name of
  the phase.
\<close>

theorem C7_unsharded_exactly_when:
  "(map_of (allOperations st) (getOperationKey e ph pr) = None \<longrightarrow>
      getOrCreateOperations (Suc n) e ph pr st =
        (if getShards e ph pr = None \<or> (\<exists>N. getShards e ph pr = Some N \<and> N \<le> 1)
         then unsharded_branch (getOrCreateOperations n e) e ph pr (getOperationKey e ph pr) st
         else sharded_branch (getOrCreateOperations n e) e ph pr (getOperationKey e ph pr)
                (the (getShards e ph pr)) st) \<and>
      (getOrCreateOperations (Suc n) e ph pr st = Some (r, st') \<longrightarrow>
         ((getShards e ph pr = None \<or> (\<exists>N. getShards e ph pr = Some N \<and> N \<le> 1)) \<longleftrightarrow>
          map_of (allOperations st') (getOperationKey e ph pr) = Some [length (heap st)]))) \<and>
   (tryLoadForProjectAsync e pr = None \<longrightarrow> getShards e ph pr = None) \<and>
   (\<forall>c. tryLoadForProjectAsync e pr = Some c \<and>
        operationSettingsByOperationName c (phase_name e ph) = None \<longrightarrow>
        getShards e ph pr = None)"
proof (intro conjI impI)
  let ?key = "getOperationKey e ph pr"
  let ?u = "getShards e ph pr = None \<or> (\<exists>N. getShards e ph pr = Some N \<and> N \<le> 1)"
  have u: "?u \<longleftrightarrow> \<not> is_sharded (getShards e ph pr)"
    by (cases "getShards e ph pr") (auto simp: is_sharded_def)
  {
    assume miss: "map_of (allOperations st) ?key = None"
    show eq: "getOrCreateOperations (Suc n) e ph pr st =
        (if ?u
         then unsharded_branch (getOrCreateOperations n e) e ph pr ?key st
         else sharded_branch (getOrCreateOperations n e) e ph pr ?key (the (getShards e ph pr)) st)"
      using miss u by simp
    assume g: "getOrCreateOperations (Suc n) e ph pr st = Some (r, st')"
    let ?U = "unsharded_branch (getOrCreateOperations n e) e ph pr ?key st"
    let ?S = "sharded_branch (getOrCreateOperations n e) e ph pr ?key (the (getShards e ph pr)) st"
    have ge: "(if ?u then ?U else ?S) = Some (r, st')" using g unfolding eq .
    show "?u \<longleftrightarrow> map_of (allOperations st') ?key = Some [length (heap st)]"
    proof
      assume c: ?u
      have "(if ?u then ?U else ?S) = ?U" using c by (rule if_P)
      then have "?U = Some (r, st')" using ge by (rule trans [OF sym])
      then show "map_of (allOperations st') ?key = Some [length (heap st)]"
        by (rule unsharded_branch_entry [OF getOrCreateOperations_keeps_entry])
    next
      assume m: "map_of (allOperations st') ?key = Some [length (heap st)]"
      show ?u
      proof (rule ccontr)
        assume nu: "\<not> ?u"
        have "(if ?u then ?U else ?S) = ?S" using nu by (rule if_not_P)
        then have "?S = Some (r, st')" using ge by (rule trans [OF sym])
        from sharded_branch_entry [OF this] m
        have "length [length (heap st)] = nat (the (getShards e ph pr)) + 2" by simp
        then show False by simp
      qed
    qed
  }
  show "tryLoadForProjectAsync e pr = None \<Longrightarrow> getShards e ph pr = None"
    by (simp add: getShards_def)
  show "\<forall>c. tryLoadForProjectAsync e pr = Some c \<and>
        operationSettingsByOperationName c (phase_name e ph) = None \<longrightarrow>
        getShards e ph pr = None"
    by (simp add: getShards_def)
qed

theorem C7_unsharded_exactly_when_witness:
  "getShards env_abc 0 0 = None \<and>
   getOrCreateOperations (Suc 0) env_abc 0 0 (initial_state [] []) \<noteq> None \<and>
   map_of (allOperations (snd (the (getOrCreateOperations (Suc 0) env_abc 0 0
     (initial_state [] []))))) (getOperationKey env_abc 0 0) = Some [0] \<and>
   getShards env_sharded_a 0 0 = Some 2 \<and>
   getOrCreateOperations (Suc 0) env_sharded_a 0 0 (initial_state [] []) \<noteq> None \<and>
   map_of (allOperations (snd (the (getOrCreateOperations (Suc 0) env_sharded_a 0 0
     (initial_state [] []))))) (getOperationKey env_sharded_a 0 0) \<noteq> Some [0]"
proof -
  let ?s = "initial_state [] []"
  have m1: "map_of (allOperations ?s) (getOperationKey env_abc 0 0) = None" by simp
  have m2: "map_of (allOperations ?s) (getOperationKey env_sharded_a 0 0) = None" by simp
  have l: "length (heap ?s) = 0" by simp
  have u1: "getShards env_abc 0 0 = None" by code_simp
  have u2: "getShards env_sharded_a 0 0 = Some 2" by code_simp
  have n1: "getOrCreateOperations (Suc 0) env_abc 0 0 ?s \<noteq> None" by code_simp
  then obtain r1 s1 where g1: "getOrCreateOperations (Suc 0) env_abc 0 0 ?s = Some (r1, s1)"
    by (cases "getOrCreateOperations (Suc 0) env_abc 0 0 ?s") auto
  have n2: "getOrCreateOperations (Suc 0) env_sharded_a 0 0 ?s \<noteq> None" by code_simp
  then obtain r2 s2 where g2: "getOrCreateOperations (Suc 0) env_sharded_a 0 0 ?s = Some (r2, s2)"
    by (cases "getOrCreateOperations (Suc 0) env_sharded_a 0 0 ?s") auto
  have "(getShards env_abc 0 0 = None \<or> (\<exists>N. getShards env_abc 0 0 = Some N \<and> N \<le> 1)) \<longleftrightarrow>
      map_of (allOperations s1) (getOperationKey env_abc 0 0) = Some [length (heap ?s)]"
    using C7_unsharded_exactly_when [of ?s env_abc 0 0 0 r1 s1, THEN conjunct1] m1 g1 by blast
  then have a: "map_of (allOperations s1) (getOperationKey env_abc 0 0) = Some [0]"
    using u1 l by simp
  have "(getShards env_sharded_a 0 0 = None \<or>
        (\<exists>N. getShards env_sharded_a 0 0 = Some N \<and> N \<le> 1)) \<longleftrightarrow>
      map_of (allOperations s2) (getOperationKey env_sharded_a 0 0) = Some [length (heap ?s)]"
    using C7_unsharded_exactly_when [of ?s env_sharded_a 0 0 0 r2 s2, THEN conjunct1] m2 g2
    by blast
  then have b: "map_of (allOperations s2) (getOperationKey env_sharded_a 0 0) \<noteq> Some [0]"
    using u2 l by simp
  show ?thesis using u1 u2 n1 n2 a b by (simp only: g1 g2 option.sel snd_conv) simp
qed

subsection \<open>The list that a resolution returns\<close>

text \<open>
  What lines 85-215 return for a pair that is not in the memo: the array of line 85, which
  the sharded branch fills with the restore, the save and the shard Operations (lines 123
  and 169), and which the unsharded branch never touches, because line 189 stores a fresh
  array \<^verbatim>\<open>[operation]\<close> in the memo.
\<close>

lemma returned_list_on_miss:
  assumes "map_of (allOperations st) (getOperationKey e ph pr) = None"
    and "getOrCreateOperations (Suc n) e ph pr st = Some (r, st')"
  shows "(\<not> is_sharded (getShards e ph pr) \<longrightarrow> r = []) \<and>
    (is_sharded (getShards e ph pr) \<longrightarrow> length r = nat (the (getShards e ph pr)) + 2)"
proof (cases "is_sharded (getShards e ph pr)")
  case True
  then have "sharded_branch (getOrCreateOperations n e) e ph pr (getOperationKey e ph pr)
      (the (getShards e ph pr)) st = Some (r, st')"
    using assms by simp
  from sharded_branch_entry [OF this] True show ?thesis by simp
next
  case False
  then have "unsharded_branch (getOrCreateOperations n e) e ph pr (getOperationKey e ph pr) st =
      Some (r, st')"
    using assms by simp
  then have "r = []" by (rule unsharded_branch_SomeD)
  then show ?thesis using False by simp
qed

text \<open>
  A resolution that has returned has left the key in the memo, and the next resolution of
  the pair returns the memo entry and changes nothing. For a sharded pair the entry is the
  list that the first resolution returned; for an unsharded pair it is the list of the one
  Operation created, while the first resolution returned the empty list.
\<close>

lemma second_resolution:
  assumes miss: "map_of (allOperations st) (getOperationKey e ph pr) = None"
    and g: "getOrCreateOperations (Suc n) e ph pr st = Some (r, st')"
  shows "getOrCreateOperations (Suc m) e ph pr st' =
      Some (if is_sharded (getShards e ph pr) then r else [length (heap st)], st')"
proof (cases "is_sharded (getShards e ph pr)")
  case True
  then have "sharded_branch (getOrCreateOperations n e) e ph pr (getOperationKey e ph pr)
      (the (getShards e ph pr)) st = Some (r, st')"
    using miss g by simp
  from sharded_branch_entry [OF this] True show ?thesis by simp
next
  case False
  then have "unsharded_branch (getOrCreateOperations n e) e ph pr (getOperationKey e ph pr) st =
      Some (r, st')"
    using miss g by simp
  then have "map_of (allOperations st') (getOperationKey e ph pr) = Some [length (heap st)]"
    by (rule unsharded_branch_entry [OF getOrCreateOperations_keeps_entry])
  then show ?thesis using False by simp
qed

text \<open>
  Claim C5. The claim is that the list returned for an unsharded pair holds exactly one
  Operation. The first resolution of the \<^verbatim>\<open>build\<close> of the package \<^verbatim>\<open>a\<close>, which has no shard
  count, creates one Operation, stores it in the memo and returns the empty list.
\<close>

theorem C5_unsharded_returns_empty:
  "getShards env_abc 0 0 = None \<and>
   getOrCreateOperations 1 env_abc 0 0 (initial_state [] []) \<noteq> None \<and>
   fst (the (getOrCreateOperations 1 env_abc 0 0 (initial_state [] []))) = [] \<and>
   length (heap (snd (the (getOrCreateOperations 1 env_abc 0 0 (initial_state [] []))))) = 1 \<and>
   allOperations (snd (the (getOrCreateOperations 1 env_abc 0 0 (initial_state [] [])))) =
     [(''a;build'', [0])]"
proof -
  have 1: "getShards env_abc 0 0 = None" by code_simp
  have 2: "getOrCreateOperations 1 env_abc 0 0 (initial_state [] []) \<noteq> None" by code_simp
  have 3: "fst (the (getOrCreateOperations 1 env_abc 0 0 (initial_state [] []))) = []"
    by code_simp
  have 4: "length (heap (snd (the (getOrCreateOperations 1 env_abc 0 0 (initial_state [] []))))) = 1"
    by code_simp
  have 5: "allOperations (snd (the (getOrCreateOperations 1 env_abc 0 0 (initial_state [] [])))) =
     [(''a;build'', [0])]"
    by code_simp
  from 1 2 3 4 5 show ?thesis by blast
qed

text \<open>
  Claim C4. The claim is that a second resolution of a key returns the list of the first.
  For the same unsharded pair the first resolution returns the empty list and the second,
  which finds the key in the memo and changes nothing, returns the list with the Operation.
\<close>

theorem C4_second_resolution_differs:
  "fst (the (getOrCreateOperations 1 env_abc 0 0 (initial_state [] []))) = [] \<and>
   fst (the (getOrCreateOperations 1 env_abc 0 0
     (snd (the (getOrCreateOperations 1 env_abc 0 0 (initial_state [] [])))))) = [0] \<and>
   snd (the (getOrCreateOperations 1 env_abc 0 0
     (snd (the (getOrCreateOperations 1 env_abc 0 0 (initial_state [] [])))))) =
   snd (the (getOrCreateOperations 1 env_abc 0 0 (initial_state [] [])))"
proof -
  have 1: "fst (the (getOrCreateOperations 1 env_abc 0 0 (initial_state [] []))) = []"
    by code_simp
  have 2: "fst (the (getOrCreateOperations 1 env_abc 0 0
     (snd (the (getOrCreateOperations 1 env_abc 0 0 (initial_state [] [])))))) = [0]"
    by code_simp
  have 3: "snd (the (getOrCreateOperations 1 env_abc 0 0
     (snd (the (getOrCreateOperations 1 env_abc 0 0 (initial_state [] [])))))) =
   snd (the (getOrCreateOperations 1 env_abc 0 0 (initial_state [] [])))"
    by code_simp
  from 1 2 3 show ?thesis by blast
qed

text \<open>
  Claim C6. The claim is that the Operations of a self-dependency phase become dependencies
  of the restore node. In \<open>env_test_a\<close> the \<^verbatim>\<open>test\<close> of the package \<^verbatim>\<open>a\<close> has three shards and
  depends on the \<^verbatim>\<open>build\<close> of \<^verbatim>\<open>a\<close>. The pass creates the Operation of \<^verbatim>\<open>build\<close> (number 2)
  while it wires \<^verbatim>\<open>test\<close>, and the restore node (number 0) is left without any dependency;
  the shards depend on the restore node and the save node (number 1) on the shards. When
  \<^verbatim>\<open>build\<close> has been resolved before (\<open>env_build_test_a\<close>), its Operation (number 0) is a
  dependency of the restore node (number 1).
\<close>

theorem C6_restore_misses_self_dependency:
  "getShards env_test_a 1 0 = Some 3 \<and> phase_self env_test_a 1 = [0] \<and>
   createOperations 2 env_test_a [] [] \<noteq> None \<and>
   allOperations (the (createOperations 2 env_test_a [] [])) =
     [(''a;build'', [2]), (''a;test'', [0, 1, 3, 4, 5])] \<and>
   dependencies (heap (the (createOperations 2 env_test_a [] [])) ! 0) = [] \<and>
   consumers (heap (the (createOperations 2 env_test_a [] [])) ! 2) = [] \<and>
   dependencies (heap (the (createOperations 2 env_test_a [] [])) ! 3) = [0] \<and>
   dependencies (heap (the (createOperations 2 env_test_a [] [])) ! 1) = [3, 4, 5] \<and>
   dependencies (heap (the (createOperations 2 env_build_test_a [] [])) ! 1) = [0]"
proof -
  have 1: "getShards env_test_a 1 0 = Some 3" by code_simp
  have 2: "phase_self env_test_a 1 = [0]" by code_simp
  have 3: "createOperations 2 env_test_a [] [] \<noteq> None" by code_simp
  have 4: "allOperations (the (createOperations 2 env_test_a [] [])) =
     [(''a;build'', [2]), (''a;test'', [0, 1, 3, 4, 5])]" by code_simp
  have 5: "dependencies (heap (the (createOperations 2 env_test_a [] [])) ! 0) = []"
    by code_simp
  have 6: "consumers (heap (the (createOperations 2 env_test_a [] [])) ! 2) = []"
    by code_simp
  have 7: "dependencies (heap (the (createOperations 2 env_test_a [] [])) ! 3) = [0]"
    by code_simp
  have 8: "dependencies (heap (the (createOperations 2 env_test_a [] [])) ! 1) = [3, 4, 5]"
    by code_simp
  have 9: "dependencies (heap (the (createOperations 2 env_build_test_a [] [])) ! 1) = [0]"
    by code_simp
  from 1 2 3 4 5 6 7 8 9 show ?thesis by blast
qed

end
